theory Spec2Isabelle
  imports Complex_Main "HOL-Library.Multiset" "HOL-Library.Log_Nat"
begin

section \<open>Run-time failures of the C programs\<close>

text \<open>
  The C sources perform no checks of their own.  Where an execution would leave the
  arrays it works on, the model returns one of these errors instead of a state:
  \<^item> \<open>QueueOverflow\<close>: \<open>pq_push\<close> is called when \<open>size\<close> already equals the length of the
    \<open>nodes\<close> array, so \<open>pq->nodes[i] = node\<close> would write behind the array;
  \<^item> \<open>QueueEmpty\<close>: \<open>pq_pop\<close> is called with \<open>size == 0\<close>;
  \<^item> \<open>IndexOutOfRange\<close>: an instance array is indexed outside its \<open>n\<close> live entries, or
    an array of a node or of the solver is indexed outside its declared size (for
    instance \<open>visited[i]\<close> with \<open>i \<ge> MAX_CITIES\<close>).
\<close>

datatype error = QueueOverflow | QueueEmpty | IndexOutOfRange

section \<open>The binary heap shared by the branch-and-bound programs\<close>

text \<open>
  Every program of \<open>strategies/6-branch-and-bound\<close> carries its own copy of \<open>pq_push\<close> and
  \<open>pq_pop\<close>; the copies differ only in the node type and in the direction of the three
  comparisons on \<open>bound\<close>.  The functions below are that code, with the comparison as a
  parameter \<open>le a b\<close> (``\<open>a\<close> is not better than \<open>b\<close>''):
  \<^item> max-heap (KnapsackBranchBound.c): \<open>le a b\<close> is \<open>a.bound <= b.bound\<close>;
  \<^item> min-heap (TravelingSalesman.c, JobAssignment.c, FacilityLocation.c): \<open>le a b\<close> is
    \<open>a.bound >= b.bound\<close>.

  The queue \<open>struct { Node nodes[CAP]; int size; }\<close> is modelled by the list of its live
  entries \<open>nodes[0..size)\<close>, so \<open>size\<close> is the length of the list.
\<close>

definition swap :: "'a list \<Rightarrow> nat \<Rightarrow> nat \<Rightarrow> 'a list" where
  "swap ns i j = ns[i := ns ! j, j := ns ! i]"

text \<open>
  The loop \<open>while (i > 0) { parent = (i - 1) / 2; if (le nodes[i] nodes[parent]) break;
  swap; i = parent; }\<close> of \<open>pq_push\<close>.
\<close>

function bubble_up :: "('a \<Rightarrow> 'a \<Rightarrow> bool) \<Rightarrow> 'a list \<Rightarrow> nat \<Rightarrow> 'a list" where
  "bubble_up le ns i =
     (if 0 < i then
        (if le (ns ! i) (ns ! ((i - 1) div 2)) then ns
         else bubble_up le (swap ns i ((i - 1) div 2)) ((i - 1) div 2))
      else ns)"
  by pat_completeness auto
termination
  by (relation "measure (\<lambda>(le, ns, i). i)") auto

declare bubble_up.simps [simp del]

text \<open>
  The choice of the child in the loop of \<open>pq_pop\<close>: \<open>largest = left; if (right < size &&
  !(le nodes[right] nodes[left])) largest = right;\<close>
\<close>

definition largest_child :: "('a \<Rightarrow> 'a \<Rightarrow> bool) \<Rightarrow> 'a list \<Rightarrow> nat \<Rightarrow> nat" where
  "largest_child le ns i =
     (if 2 * i + 2 < length ns \<and> \<not> le (ns ! (2 * i + 2)) (ns ! (2 * i + 1))
      then 2 * i + 2 else 2 * i + 1)"

text \<open>
  The loop \<open>while (2 * i + 1 < size)\<close> of \<open>pq_pop\<close>: it breaks when the chosen child is
  not better than \<open>nodes[i]\<close>, and otherwise swaps and continues at the child.
\<close>

function bubble_down :: "('a \<Rightarrow> 'a \<Rightarrow> bool) \<Rightarrow> 'a list \<Rightarrow> nat \<Rightarrow> 'a list" where
  "bubble_down le ns i =
     (if 2 * i + 1 < length ns then
        (if le (ns ! largest_child le ns i) (ns ! i) then ns
         else bubble_down le (swap ns i (largest_child le ns i)) (largest_child le ns i))
      else ns)"
  by pat_completeness auto
termination
  by (relation "measure (\<lambda>(le, ns, i). length ns - i)") (auto simp: swap_def largest_child_def)

declare bubble_down.simps [simp del]

text \<open>
  \<open>pq_push\<close>: \<open>i = size++; nodes[i] = node;\<close> and the bubble-up loop.  The array has
  \<open>cap\<close> entries (10000 in the knapsack, TSP and assignment programs, 5000 in the
  facility program); the source has no test for a full array.
\<close>

definition heap_push ::
  "('a \<Rightarrow> 'a \<Rightarrow> bool) \<Rightarrow> nat \<Rightarrow> 'a list \<Rightarrow> 'a \<Rightarrow> error + 'a list" where
  "heap_push le cap ns node =
     (if cap \<le> length ns then Inl QueueOverflow
      else Inr (bubble_up le (ns @ [node]) (length ns)))"

text \<open>
  \<open>pq_pop\<close>: \<open>max = nodes[0]; nodes[0] = nodes[--size];\<close> and the bubble-down loop from
  index 0.  It returns the removed node and the new queue.
\<close>

definition heap_pop :: "('a \<Rightarrow> 'a \<Rightarrow> bool) \<Rightarrow> 'a list \<Rightarrow> error + ('a \<times> 'a list)" where
  "heap_pop le ns =
     (if ns = [] then Inl QueueEmpty
      else Inr (ns ! 0, bubble_down le ((butlast ns)[0 := last ns]) 0))"

text \<open>
  The comparison of a heap has to be a total preorder; both \<open>a.bound <= b.bound\<close> and
  \<open>a.bound >= b.bound\<close> are.  \<open>heap_ok\<close> is the heap property of the array: no entry is
  better than its parent at index \<open>(i - 1) / 2\<close>.  \<open>up_inv\<close> and \<open>down_inv\<close> are the
  invariants of the two loops: the heap property with one exception at index \<open>i\<close>.
\<close>

definition total_preorder :: "('a \<Rightarrow> 'a \<Rightarrow> bool) \<Rightarrow> bool" where
  "total_preorder le = ((\<forall>a b. le a b \<or> le b a) \<and> (\<forall>a b c. le a b \<longrightarrow> le b c \<longrightarrow> le a c))"

definition heap_ok :: "('a \<Rightarrow> 'a \<Rightarrow> bool) \<Rightarrow> 'a list \<Rightarrow> bool" where
  "heap_ok le ns = (\<forall>i. 0 < i \<and> i < length ns \<longrightarrow> le (ns ! i) (ns ! ((i - 1) div 2)))"

definition up_inv :: "('a \<Rightarrow> 'a \<Rightarrow> bool) \<Rightarrow> 'a list \<Rightarrow> nat \<Rightarrow> bool" where
  "up_inv le ns i =
     ((\<forall>j. 0 < j \<and> j < length ns \<and> j \<noteq> i \<longrightarrow> le (ns ! j) (ns ! ((j - 1) div 2))) \<and>
      (\<forall>j. 0 < j \<and> j < length ns \<and> (j - 1) div 2 = i \<and> 0 < i \<longrightarrow>
           le (ns ! j) (ns ! ((i - 1) div 2))))"

definition down_inv :: "('a \<Rightarrow> 'a \<Rightarrow> bool) \<Rightarrow> 'a list \<Rightarrow> nat \<Rightarrow> bool" where
  "down_inv le ns i =
     ((\<forall>j. 0 < j \<and> j < length ns \<and> (j - 1) div 2 \<noteq> i \<longrightarrow> le (ns ! j) (ns ! ((j - 1) div 2))) \<and>
      (\<forall>j. 0 < j \<and> j < length ns \<and> (j - 1) div 2 = i \<and> 0 < i \<longrightarrow>
           le (ns ! j) (ns ! ((i - 1) div 2))))"

text \<open>
  A client of the queue calls \<open>pq_push\<close> and \<open>pq_pop\<close> in some order; \<open>pq_run\<close> executes
  such a sequence of calls from a given queue and stops at the first call that fails.
\<close>

datatype 'a pq_op = Push 'a | Pop

fun pq_run :: "('a \<Rightarrow> 'a \<Rightarrow> bool) \<Rightarrow> nat \<Rightarrow> 'a list \<Rightarrow> 'a pq_op list \<Rightarrow> error + 'a list" where
  "pq_run le cap ns [] = Inr ns"
| "pq_run le cap ns (Push x # ops) =
     (case heap_push le cap ns x of Inl e \<Rightarrow> Inl e | Inr ns' \<Rightarrow> pq_run le cap ns' ops)"
| "pq_run le cap ns (Pop # ops) =
     (case heap_pop le ns of Inl e \<Rightarrow> Inl e | Inr (x, ns') \<Rightarrow> pq_run le cap ns' ops)"

section \<open>KnapsackBranchBound.c\<close>

subsection \<open>Data\<close>

text \<open>
  \<open>int\<close> fields are modelled by unbounded integers (the instances the program accepts,
  at most 20 items and capacity at most 1000, stay far from \<open>INT_MAX\<close>); \<open>double\<close> fields
  are modelled by real numbers, that is, without rounding.
\<close>

definition MAX_ITEMS :: nat where
  "MAX_ITEMS = 20"

definition KN_QUEUE_CAP :: nat where
  "KN_QUEUE_CAP = 10000"

record item =
  item_weight :: int
  item_value :: int
  item_index :: nat
  item_ratio :: real

record knapsack_node =
  kn_level :: nat
  kn_profit :: int
  kn_weight :: int
  kn_bound :: real
  kn_included :: "int list"

text \<open>
  The globals the solver writes (\<open>max_profit\<close>, \<open>best_solution\<close>, \<open>nodes_explored\<close>,
  \<open>nodes_pruned\<close>) together with the local priority queue.  The global \<open>items\<close> array is
  modelled by the list of its first \<open>n\<close> entries, so \<open>n\<close> is the length of that list.
\<close>

record kn_state =
  kn_queue :: "knapsack_node list"
  max_profit :: int
  best_solution :: "int list"
  nodes_explored :: nat
  nodes_pruned :: nat

subsection \<open>The priority queue (max-heap on the bound)\<close>

definition kn_le :: "knapsack_node \<Rightarrow> knapsack_node \<Rightarrow> bool" where
  "kn_le a b = (kn_bound a \<le> kn_bound b)"

definition pq_push :: "knapsack_node list \<Rightarrow> knapsack_node \<Rightarrow> error + knapsack_node list" where
  "pq_push = heap_push kn_le KN_QUEUE_CAP"

definition pq_pop :: "knapsack_node list \<Rightarrow> error + (knapsack_node \<times> knapsack_node list)" where
  "pq_pop = heap_pop kn_le"

subsection \<open>Sorting the items\<close>

definition compare_items :: "item \<Rightarrow> item \<Rightarrow> int" where
  "compare_items a b =
     (if item_ratio b > item_ratio a then 1
      else if item_ratio b < item_ratio a then -1 else 0)"

text \<open>
  \<open>qsort(items, n, sizeof(Item), compare_items)\<close> is a call into the C library.  It is
  modelled by insertion sort with the program's comparison function: an element goes in
  front of the first element it does not compare greater than.  (The C standard leaves
  the order of elements that compare equal open; insertion sort keeps their order.)
\<close>

fun qsort_insert :: "('a \<Rightarrow> 'a \<Rightarrow> int) \<Rightarrow> 'a \<Rightarrow> 'a list \<Rightarrow> 'a list" where
  "qsort_insert cmp x [] = [x]"
| "qsort_insert cmp x (y # ys) =
     (if cmp x y \<le> 0 then x # y # ys else y # qsort_insert cmp x ys)"

definition qsort :: "('a \<Rightarrow> 'a \<Rightarrow> int) \<Rightarrow> 'a list \<Rightarrow> 'a list" where
  "qsort cmp xs = foldr (qsort_insert cmp) xs []"

subsection \<open>The bound\<close>

text \<open>
  The \<open>for\<close> loop of \<open>calculate_bound\<close> over \<open>items[level..n)\<close>, with the running
  \<open>bound\<close> and \<open>remaining_capacity\<close>.
\<close>

fun bound_loop :: "item list \<Rightarrow> real \<Rightarrow> int \<Rightarrow> real" where
  "bound_loop [] b rc = b"
| "bound_loop (it # its) b rc =
     (if item_weight it \<le> rc
      then bound_loop its (b + real_of_int (item_value it)) (rc - item_weight it)
      else b + item_ratio it * real_of_int rc)"

definition calculate_bound :: "item list \<Rightarrow> int \<Rightarrow> knapsack_node \<Rightarrow> real" where
  "calculate_bound items capacity node =
     (if kn_weight node \<ge> capacity then 0
      else bound_loop (drop (kn_level node) items) (real_of_int (kn_profit node))
             (capacity - kn_weight node))"

subsection \<open>The search loop\<close>

text \<open>
  \<open>if (node.bound > max_profit) pq_push(&pq, node); else nodes_pruned++;\<close>
\<close>

definition kn_offer :: "knapsack_node \<Rightarrow> kn_state \<Rightarrow> error + kn_state" where
  "kn_offer node s =
     (if kn_bound node > real_of_int (max_profit s) then
        (case pq_push (kn_queue s) node of
           Inl e \<Rightarrow> Inl e
         | Inr q \<Rightarrow> Inr (s\<lparr>kn_queue := q\<rparr>))
      else Inr (s\<lparr>nodes_pruned := nodes_pruned s + 1\<rparr>))"

definition include_node :: "item list \<Rightarrow> int \<Rightarrow> knapsack_node \<Rightarrow> knapsack_node" where
  "include_node items capacity current =
     (let nd = current\<lparr>kn_level := kn_level current + 1,
                       kn_profit := kn_profit current + item_value (items ! kn_level current),
                       kn_weight := kn_weight current + item_weight (items ! kn_level current),
                       kn_included := (kn_included current)[kn_level current := 1]\<rparr>
      in nd\<lparr>kn_bound := calculate_bound items capacity nd\<rparr>)"

definition exclude_node :: "item list \<Rightarrow> int \<Rightarrow> knapsack_node \<Rightarrow> knapsack_node" where
  "exclude_node items capacity current =
     (let nd = current\<lparr>kn_level := kn_level current + 1\<rparr>
      in nd\<lparr>kn_bound := calculate_bound items capacity nd\<rparr>)"

text \<open>
  Branching on a popped node that is neither pruned nor a leaf: the include child is
  built only when the item fits, then the exclude child.
\<close>

definition kn_branch :: "item list \<Rightarrow> int \<Rightarrow> knapsack_node \<Rightarrow> kn_state \<Rightarrow> error + kn_state" where
  "kn_branch items capacity current s =
     (if kn_weight current + item_weight (items ! kn_level current) \<le> capacity then
        (case kn_offer (include_node items capacity current) s of
           Inl e \<Rightarrow> Inl e
         | Inr s' \<Rightarrow> kn_offer (exclude_node items capacity current) s')
      else kn_offer (exclude_node items capacity current) s)"

text \<open>
  One iteration of \<open>while (!pq_empty(&pq))\<close>.  A node with \<open>level > n\<close> is never pushed by
  the program; for such a node the source would read \<open>items[level]\<close> behind the live
  entries, which the model reports as an error.
\<close>

definition kn_step :: "item list \<Rightarrow> int \<Rightarrow> kn_state \<Rightarrow> error + kn_state" where
  "kn_step items capacity s =
     (case pq_pop (kn_queue s) of
        Inl e \<Rightarrow> Inl e
      | Inr (current, q) \<Rightarrow>
          (let s1 = s\<lparr>kn_queue := q, nodes_explored := nodes_explored s + 1\<rparr> in
           if kn_bound current \<le> real_of_int (max_profit s1) then
             Inr (s1\<lparr>nodes_pruned := nodes_pruned s1 + 1\<rparr>)
           else if kn_level current = length items then
             (if kn_profit current > max_profit s1
              then Inr (s1\<lparr>max_profit := kn_profit current,
                            best_solution := kn_included current\<rparr>)
              else Inr s1)
           else if length items < kn_level current then Inl IndexOutOfRange
           else kn_branch items capacity current s1))"

partial_function (option) kn_loop :: "item list \<Rightarrow> int \<Rightarrow> kn_state \<Rightarrow> (error + kn_state) option" where
  "kn_loop items capacity s =
     (if kn_queue s = [] then Some (Inr s)
      else (case kn_step items capacity s of
              Inl e \<Rightarrow> Some (Inl e)
            | Inr s' \<Rightarrow> kn_loop items capacity s'))"

declare kn_loop.simps [code]

definition kn_root :: "item list \<Rightarrow> int \<Rightarrow> knapsack_node" where
  "kn_root items capacity =
     (let nd = \<lparr>kn_level = 0, kn_profit = 0, kn_weight = 0, kn_bound = 0,
                kn_included = replicate MAX_ITEMS 0\<rparr>
      in nd\<lparr>kn_bound := calculate_bound items capacity nd\<rparr>)"

definition kn_init :: "item list \<Rightarrow> int \<Rightarrow> error + kn_state" where
  "kn_init items capacity =
     (case pq_push [] (kn_root items capacity) of
        Inl e \<Rightarrow> Inl e
      | Inr q \<Rightarrow> Inr \<lparr>kn_queue = q, max_profit = 0, best_solution = replicate MAX_ITEMS 0,
                      nodes_explored = 0, nodes_pruned = 0\<rparr>)"

text \<open>
  \<open>solve_knapsack\<close>: it takes the global \<open>items\<close> (its first \<open>n\<close> entries) and \<open>capacity\<close>
  and returns the sorted \<open>items\<close> array it leaves behind together with the final state,
  or \<open>None\<close> if the loop does not end.
\<close>

definition solve_knapsack :: "item list \<Rightarrow> int \<Rightarrow> (item list \<times> (error + kn_state)) option" where
  "solve_knapsack items capacity =
     (let sorted_items = qsort compare_items items in
      case kn_init sorted_items capacity of
        Inl e \<Rightarrow> Some (sorted_items, Inl e)
      | Inr s0 \<Rightarrow> map_option (Pair sorted_items) (kn_loop sorted_items capacity s0))"

subsection \<open>The brute-force baseline\<close>

text \<open>
  The inner loop of \<open>brute_force_knapsack\<close> for one \<open>mask\<close>: bit \<open>i\<close> of the mask selects
  \<open>items[i]\<close>.  The triple is \<open>(current_weight, current_profit, current_solution)\<close>.
\<close>

fun bf_mask :: "item list \<Rightarrow> nat \<Rightarrow> nat \<Rightarrow> int \<times> int \<times> int list \<Rightarrow> int \<times> int \<times> int list" where
  "bf_mask [] msk i acc = acc"
| "bf_mask (it # its) msk i (cw, cp, sol) =
     (if odd (msk div 2 ^ i)
      then bf_mask its msk (i + 1) (cw + item_weight it, cp + item_value it, sol[i := 1])
      else bf_mask its msk (i + 1) (cw, cp, sol))"

text \<open>One iteration of the outer loop: the pair is \<open>(max_profit, best_solution)\<close>.\<close>

definition bf_step :: "item list \<Rightarrow> int \<Rightarrow> nat \<Rightarrow> int \<times> int list \<Rightarrow> int \<times> int list" where
  "bf_step items capacity msk best =
     (case bf_mask items msk 0 (0, 0, replicate MAX_ITEMS 0) of
        (cw, cp, sol) \<Rightarrow> if cw \<le> capacity \<and> cp > fst best then (cp, sol) else best)"

definition brute_force_knapsack :: "item list \<Rightarrow> int \<Rightarrow> int \<times> int list" where
  "brute_force_knapsack items capacity =
     fold (bf_step items capacity) [0 ..< 2 ^ length items] (0, replicate MAX_ITEMS 0)"


text \<open>The instances that \<open>main\<close> and the specification run.\<close>

definition test_case_1 :: "item list" where
  "test_case_1 =
     [\<lparr>item_weight = 10, item_value = 60, item_index = 0, item_ratio = 6\<rparr>,
      \<lparr>item_weight = 20, item_value = 100, item_index = 1, item_ratio = 5\<rparr>,
      \<lparr>item_weight = 30, item_value = 120, item_index = 2, item_ratio = 4\<rparr>]"

text \<open>
  Scenario A of the specification, with the items A, B, C, D at the indices 0, 1, 2, 3
  and the ratio set as the program's callers set it, \<open>(double)value / weight\<close>.
\<close>

definition scenario_A :: "item list" where
  "scenario_A =
     [\<lparr>item_weight = 1, item_value = 15, item_index = 0, item_ratio = 15 / 1\<rparr>,
      \<lparr>item_weight = 3, item_value = 20, item_index = 1, item_ratio = 20 / 3\<rparr>,
      \<lparr>item_weight = 4, item_value = 30, item_index = 2, item_ratio = 30 / 4\<rparr>,
      \<lparr>item_weight = 5, item_value = 40, item_index = 3, item_ratio = 40 / 5\<rparr>]"

text \<open>
  The items a solution vector selects, as the final loop of \<open>solve_knapsack\<close> reads them:
  \<open>for (i = 0; i < n; i++) if (best_solution[i]) ... items[i]\<close>.
\<close>

definition selected_items :: "item list \<Rightarrow> int list \<Rightarrow> item list" where
  "selected_items items solution = map fst (filter (\<lambda>(it, flag). flag \<noteq> 0) (zip items solution))"

text \<open>
  A completion of a node fixes the items \<open>items[level..n)\<close> that are still open:
  \<open>sel\<close> holds one flag for each of them.  Its profit and weight include what the node
  has accrued; it is feasible when the weight stays within the capacity.
\<close>

definition completion_items :: "item list \<Rightarrow> knapsack_node \<Rightarrow> bool list \<Rightarrow> item list" where
  "completion_items items node sel = map fst (filter snd (zip (drop (kn_level node) items) sel))"

definition completion_profit :: "item list \<Rightarrow> knapsack_node \<Rightarrow> bool list \<Rightarrow> int" where
  "completion_profit items node sel =
     kn_profit node + sum_list (map item_value (completion_items items node sel))"

definition completion_weight :: "item list \<Rightarrow> knapsack_node \<Rightarrow> bool list \<Rightarrow> int" where
  "completion_weight items node sel =
     kn_weight node + sum_list (map item_weight (completion_items items node sel))"

definition feasible_completion :: "item list \<Rightarrow> int \<Rightarrow> knapsack_node \<Rightarrow> bool list \<Rightarrow> bool" where
  "feasible_completion items capacity node sel = (completion_weight items node sel \<le> capacity)"

section \<open>TravelingSalesman.c\<close>

subsection \<open>Data\<close>

definition MAX_CITIES :: nat where
  "MAX_CITIES = 20"

definition TSP_QUEUE_CAP :: nat where
  "TSP_QUEUE_CAP = 10000"

text \<open>\<open>#define INF INT_MAX\<close>, for a 32-bit \<open>int\<close>.\<close>

definition C_INF :: int where
  "C_INF = 2147483647"

text \<open>
  Arithmetic on \<open>int\<close>: the programs are compiled for a 32-bit two's complement \<open>int\<close>,
  and a sum that leaves the range \<open>[-2\<^sup>3\<^sup>1, 2\<^sup>3\<^sup>1)\<close> wraps around.  \<open>c_int x\<close> is the value of
  the \<open>int\<close> that holds the mathematical result \<open>x\<close>; every sum of the TSP and assignment
  programs below goes through it.
\<close>

definition c_int :: "int \<Rightarrow> int" where
  "c_int x = (x + 2147483648) mod 4294967296 - 2147483648"

text \<open>
  \<open>path\<close> and \<open>visited\<close> are arrays of \<open>MAX_CITIES\<close> entries.  \<open>cost\<close> and \<open>bound\<close> hold
  values of \<open>int\<close>.
\<close>

record tsp_node =
  tsp_path :: "nat list"
  tsp_visited :: "int list"
  tsp_cost :: int
  tsp_bound :: int
  tsp_level :: nat

text \<open>
  The globals \<open>best_cost\<close>, \<open>best_path\<close> (\<open>MAX_CITIES + 1\<close> entries), \<open>nodes_explored\<close>
  and \<open>nodes_pruned\<close>, and the local queue.  The global \<open>graph\<close> is a list of rows.
\<close>

record tsp_state =
  tsp_queue :: "tsp_node list"
  best_cost :: int
  best_path :: "nat list"
  tsp_nodes_explored :: nat
  tsp_nodes_pruned :: nat

subsection \<open>The priority queue (min-heap on the bound)\<close>

definition tsp_le :: "tsp_node \<Rightarrow> tsp_node \<Rightarrow> bool" where
  "tsp_le a b = (tsp_bound a \<ge> tsp_bound b)"

definition tsp_pq_push :: "tsp_node list \<Rightarrow> tsp_node \<Rightarrow> error + tsp_node list" where
  "tsp_pq_push = heap_push tsp_le TSP_QUEUE_CAP"

definition tsp_pq_pop :: "tsp_node list \<Rightarrow> error + (tsp_node \<times> tsp_node list)" where
  "tsp_pq_pop = heap_pop tsp_le"

subsection \<open>The bound\<close>

text \<open>C's \<open>x / 2\<close> on \<open>int\<close> truncates towards zero.\<close>

definition c_half :: "int \<Rightarrow> int" where
  "c_half x = (if 0 \<le> x then x div 2 else - ((- x) div 2))"

text \<open>
  One iteration of the inner loop of \<open>calculate_bound\<close>, which keeps the two smallest
  edge costs \<open>(min1, min2)\<close> out of city \<open>i\<close>.
\<close>

definition two_min_step :: "int list list \<Rightarrow> nat \<Rightarrow> nat \<Rightarrow> int \<times> int \<Rightarrow> int \<times> int" where
  "two_min_step graph i j mins =
     (case mins of (min1, min2) \<Rightarrow>
        if i \<noteq> j then
          (if graph ! i ! j < min1 then (graph ! i ! j, min1)
           else if graph ! i ! j < min2 \<and> graph ! i ! j \<noteq> min1 then (min1, graph ! i ! j)
           else (min1, min2))
        else (min1, min2))"

definition two_min :: "int list list \<Rightarrow> nat \<Rightarrow> nat \<Rightarrow> int \<times> int" where
  "two_min graph n i = fold (two_min_step graph i) [0 ..< n] (C_INF, C_INF)"

text \<open>
  One iteration of the outer loop: what city \<open>i\<close> adds to the bound.  The iteration
  reads \<open>node->visited[i]\<close> and \<open>node->path[node->level - 1]\<close>; \<open>visited\<close> and \<open>path\<close> have
  \<open>MAX_CITIES\<close> entries, and the source has no test of its own, so for \<open>i \<ge> MAX_CITIES\<close>
  or \<open>level > MAX_CITIES\<close> the read is outside the array.
\<close>

definition tsp_bound_step :: "int list list \<Rightarrow> nat \<Rightarrow> tsp_node \<Rightarrow> nat \<Rightarrow> int \<Rightarrow> error + int" where
  "tsp_bound_step graph n node i bound =
     (if MAX_CITIES \<le> i \<or> MAX_CITIES < tsp_level node then Inl IndexOutOfRange
      else if tsp_visited node ! i = 0
              \<or> (0 < tsp_level node \<and> i = tsp_path node ! (tsp_level node - 1))
      then
        (case two_min graph n i of (min1, min2) \<Rightarrow>
           if tsp_visited node ! i \<noteq> 0 \<and> 0 < tsp_level node
              \<and> i \<noteq> tsp_path node ! (tsp_level node - 1)
           then Inr (c_int (bound + min1))
           else if min2 \<noteq> C_INF then Inr (c_int (bound + c_half (c_int (min1 + min2))))
           else Inr (c_int (bound + min1)))
      else Inr bound)"

text \<open>\<open>calculate_bound\<close>: the loop over the cities \<open>0 \<le> i < n\<close>, from \<open>bound = node->cost\<close>.\<close>

definition tsp_calculate_bound :: "int list list \<Rightarrow> nat \<Rightarrow> tsp_node \<Rightarrow> error + int" where
  "tsp_calculate_bound graph n node =
     fold (\<lambda>i r. case r of Inl e \<Rightarrow> Inl e | Inr bound \<Rightarrow> tsp_bound_step graph n node i bound)
          [0 ..< n] (Inr (tsp_cost node))"

subsection \<open>The search loop\<close>

definition tsp_offer :: "tsp_node \<Rightarrow> tsp_state \<Rightarrow> error + tsp_state" where
  "tsp_offer child s =
     (if tsp_bound child < best_cost s then
        (case tsp_pq_push (tsp_queue s) child of
           Inl e \<Rightarrow> Inl e
         | Inr q \<Rightarrow> Inr (s\<lparr>tsp_queue := q\<rparr>))
      else Inr (s\<lparr>tsp_nodes_pruned := tsp_nodes_pruned s + 1\<rparr>))"

text \<open>
  The child of \<open>current\<close> that visits \<open>city\<close> next: \<open>child.path[child.level] = city;
  child.visited[city] = 1; child.level++; child.cost += graph[last][city];\<close> and the
  new bound.
\<close>

definition tsp_child :: "int list list \<Rightarrow> nat \<Rightarrow> tsp_node \<Rightarrow> nat \<Rightarrow> error + tsp_node" where
  "tsp_child graph n current city =
     (let nd = current\<lparr>tsp_path := (tsp_path current)[tsp_level current := city],
                       tsp_visited := (tsp_visited current)[city := 1],
                       tsp_level := tsp_level current + 1,
                       tsp_cost := c_int (tsp_cost current
                                     + graph ! (tsp_path current ! (tsp_level current - 1)) ! city)\<rparr>
      in case tsp_calculate_bound graph n nd of
           Inl e \<Rightarrow> Inl e
         | Inr b \<Rightarrow> Inr (nd\<lparr>tsp_bound := b\<rparr>))"

text \<open>
  The loop \<open>for (city = 1; city < n; city++) if (!current.visited[city]) ...\<close>; it reads
  \<open>current.visited[city]\<close>, which is outside the array for \<open>city \<ge> MAX_CITIES\<close>.
\<close>

fun tsp_branch :: "int list list \<Rightarrow> nat \<Rightarrow> tsp_node \<Rightarrow> nat list \<Rightarrow> tsp_state \<Rightarrow> error + tsp_state" where
  "tsp_branch graph n current [] s = Inr s"
| "tsp_branch graph n current (city # cities) s =
     (if MAX_CITIES \<le> city then Inl IndexOutOfRange
      else if tsp_visited current ! city = 0 then
        (case tsp_child graph n current city of
           Inl e \<Rightarrow> Inl e
         | Inr child \<Rightarrow>
             (case tsp_offer child s of
                Inl e \<Rightarrow> Inl e
              | Inr s' \<Rightarrow> tsp_branch graph n current cities s'))
      else tsp_branch graph n current cities s)"

text \<open>
  Recording a complete tour: \<open>for (i = 0; i < n; i++) best_path[i] = current.path[i];
  best_path[n] = 0;\<close>
\<close>

definition record_tour :: "nat \<Rightarrow> nat list \<Rightarrow> nat list \<Rightarrow> nat list" where
  "record_tour n path old = (fold (\<lambda>i bp. bp[i := path ! i]) [0 ..< n] old)[n := 0]"

text \<open>
  One iteration of \<open>while (!pq_empty(&pq))\<close>.  The program only builds nodes with
  \<open>1 \<le> level \<le> n \<le> MAX_CITIES\<close>; outside of that range the source would index \<open>path\<close>
  outside the array, which the model reports as an error.
\<close>

definition tsp_step :: "int list list \<Rightarrow> nat \<Rightarrow> tsp_state \<Rightarrow> error + tsp_state" where
  "tsp_step graph n s =
     (case tsp_pq_pop (tsp_queue s) of
        Inl e \<Rightarrow> Inl e
      | Inr (current, q) \<Rightarrow>
          (let s1 = s\<lparr>tsp_queue := q, tsp_nodes_explored := tsp_nodes_explored s + 1\<rparr> in
           if tsp_bound current \<ge> best_cost s1 then
             Inr (s1\<lparr>tsp_nodes_pruned := tsp_nodes_pruned s1 + 1\<rparr>)
           else if tsp_level current = 0 \<or> MAX_CITIES < tsp_level current then Inl IndexOutOfRange
           else if tsp_level current = n then
             (let total_cost = c_int (tsp_cost current + graph ! (tsp_path current ! (n - 1)) ! 0) in
              if total_cost < best_cost s1
              then Inr (s1\<lparr>best_cost := total_cost,
                            best_path := record_tour n (tsp_path current) (best_path s1)\<rparr>)
              else Inr s1)
           else if tsp_level current = MAX_CITIES then Inl IndexOutOfRange
           else tsp_branch graph n current [1 ..< n] s1))"



text \<open>
  The root node.  \<open>TSPNode root;\<close> is an uninitialised local: \<open>memset\<close> clears only
  \<open>root.visited\<close>, and only \<open>root.path[0]\<close> is assigned.  The other entries of \<open>root.path\<close>
  hold whatever the stack held; they are the parameter \<open>stack_path\<close>.
\<close>

definition tsp_root :: "int list list \<Rightarrow> nat \<Rightarrow> nat list \<Rightarrow> error + tsp_node" where
  "tsp_root graph n stack_path =
     (let nd = \<lparr>tsp_path = stack_path[0 := 0],
                tsp_visited = (replicate MAX_CITIES 0)[0 := 1],
                tsp_cost = 0, tsp_bound = 0, tsp_level = 1\<rparr>
      in case tsp_calculate_bound graph n nd of
           Inl e \<Rightarrow> Inl e
         | Inr b \<Rightarrow> Inr (nd\<lparr>tsp_bound := b\<rparr>))"

text \<open>
  \<open>solve_tsp\<close> assigns \<open>best_cost\<close>, \<open>nodes_explored\<close> and \<open>nodes_pruned\<close> before the search
  and leaves the global \<open>best_path\<close> as it finds it; \<open>old_best_path\<close> is the content of
  that global when \<open>solve_tsp\<close> is called.
\<close>

definition tsp_init :: "int list list \<Rightarrow> nat \<Rightarrow> nat list \<Rightarrow> nat list \<Rightarrow> error + tsp_state" where
  "tsp_init graph n stack_path old_best_path =
     (case tsp_root graph n stack_path of
        Inl e \<Rightarrow> Inl e
      | Inr root_node \<Rightarrow>
          (case tsp_pq_push [] root_node of
             Inl e \<Rightarrow> Inl e
           | Inr q \<Rightarrow> Inr \<lparr>tsp_queue = q, best_cost = C_INF, best_path = old_best_path,
                           tsp_nodes_explored = 0, tsp_nodes_pruned = 0\<rparr>))"


text \<open>Scenario B of the specification, the 4-city instance of \<open>main\<close>.\<close>

definition scenario_B :: "int list list" where
  "scenario_B = [[0, 10, 15, 20], [10, 0, 35, 25], [15, 35, 0, 30], [20, 25, 30, 0]]"


section \<open>JobAssignment.c\<close>

subsection \<open>Data\<close>

definition MAX_SIZE :: nat where
  "MAX_SIZE = 10"

definition AS_QUEUE_CAP :: nat where
  "AS_QUEUE_CAP = 10000"

record as_node =
  as_level :: nat
  as_cost :: int
  as_bound :: int
  as_assignment :: "int list"
  as_worker_used :: "int list"

text \<open>
  The globals \<open>min_cost\<close>, \<open>best_assignment\<close>, \<open>nodes_explored\<close>, \<open>nodes_pruned\<close> and the
  local queue.  The global \<open>cost_matrix\<close> is a list of rows.
\<close>

record as_state =
  as_queue :: "as_node list"
  min_cost :: int
  best_assignment :: "int list"
  as_nodes_explored :: nat
  as_nodes_pruned :: nat

subsection \<open>The priority queue (min-heap on the bound)\<close>

definition as_le :: "as_node \<Rightarrow> as_node \<Rightarrow> bool" where
  "as_le a b = (as_bound a \<ge> as_bound b)"

definition as_pq_push :: "as_node list \<Rightarrow> as_node \<Rightarrow> error + as_node list" where
  "as_pq_push = heap_push as_le AS_QUEUE_CAP"

definition as_pq_pop :: "as_node list \<Rightarrow> error + (as_node \<times> as_node list)" where
  "as_pq_pop = heap_pop as_le"

subsection \<open>The bound\<close>

text \<open>
  The inner loop of \<open>calculate_bound\<close>: the cheapest job of \<open>worker\<close> among the jobs that
  are not taken, starting from \<open>INF\<close>.  It reads \<open>node->worker_used[job]\<close> for every
  \<open>job < n\<close>; the array has \<open>MAX_SIZE\<close> entries and the source has no test of its own.
\<close>

definition as_row_min :: "int list list \<Rightarrow> nat \<Rightarrow> as_node \<Rightarrow> nat \<Rightarrow> error + int" where
  "as_row_min cost_matrix n node worker =
     (if MAX_SIZE < n then Inl IndexOutOfRange
      else Inr (fold (\<lambda>job m. if as_worker_used node ! job = 0 \<and> cost_matrix ! worker ! job < m
                               then cost_matrix ! worker ! job else m)
                     [0 ..< n] C_INF))"

text \<open>The outer loop \<open>for (worker = node->level; worker < n; worker++)\<close>, from \<open>node->cost\<close>.\<close>

definition as_calculate_bound :: "int list list \<Rightarrow> nat \<Rightarrow> as_node \<Rightarrow> error + int" where
  "as_calculate_bound cost_matrix n node =
     fold (\<lambda>worker r.
             case r of
               Inl e \<Rightarrow> Inl e
             | Inr bound \<Rightarrow>
                 (case as_row_min cost_matrix n node worker of
                    Inl e \<Rightarrow> Inl e
                  | Inr m \<Rightarrow> if m \<noteq> C_INF then Inr (c_int (bound + m)) else Inr bound))
          [as_level node ..< n] (Inr (as_cost node))"

subsection \<open>The search loop\<close>

definition as_offer :: "as_node \<Rightarrow> as_state \<Rightarrow> error + as_state" where
  "as_offer child s =
     (if as_bound child < min_cost s then
        (case as_pq_push (as_queue s) child of
           Inl e \<Rightarrow> Inl e
         | Inr q \<Rightarrow> Inr (s\<lparr>as_queue := q\<rparr>))
      else Inr (s\<lparr>as_nodes_pruned := as_nodes_pruned s + 1\<rparr>))"

text \<open>
  The child of \<open>current\<close> that gives \<open>job\<close> to the next worker: \<open>child.level =
  current.level + 1; child.assignment[current.level] = job; child.worker_used[job] = 1;
  child.cost = current.cost + cost_matrix[current.level][job];\<close> and the new bound.  Both
  arrays have \<open>MAX_SIZE\<close> entries.
\<close>

definition as_child :: "int list list \<Rightarrow> nat \<Rightarrow> as_node \<Rightarrow> nat \<Rightarrow> error + as_node" where
  "as_child cost_matrix n current job =
     (if MAX_SIZE \<le> as_level current \<or> MAX_SIZE \<le> job then Inl IndexOutOfRange
      else
        (let nd = current\<lparr>as_level := as_level current + 1,
                          as_assignment := (as_assignment current)[as_level current := int job],
                          as_worker_used := (as_worker_used current)[job := 1],
                          as_cost := c_int (as_cost current + cost_matrix ! as_level current ! job)\<rparr>
         in case as_calculate_bound cost_matrix n nd of
              Inl e \<Rightarrow> Inl e
            | Inr b \<Rightarrow> Inr (nd\<lparr>as_bound := b\<rparr>)))"

text \<open>
  The loop \<open>for (job = 0; job < n; job++) if (!current.worker_used[job]) ...\<close>; it reads
  \<open>current.worker_used[job]\<close>.
\<close>

fun as_branch :: "int list list \<Rightarrow> nat \<Rightarrow> as_node \<Rightarrow> nat list \<Rightarrow> as_state \<Rightarrow> error + as_state" where
  "as_branch cost_matrix n current [] s = Inr s"
| "as_branch cost_matrix n current (job # jobs) s =
     (if MAX_SIZE \<le> job then Inl IndexOutOfRange
      else if as_worker_used current ! job = 0 then
        (case as_child cost_matrix n current job of
           Inl e \<Rightarrow> Inl e
         | Inr child \<Rightarrow>
             (case as_offer child s of
                Inl e \<Rightarrow> Inl e
              | Inr s' \<Rightarrow> as_branch cost_matrix n current jobs s'))
      else as_branch cost_matrix n current jobs s)"

text \<open>\<open>for (i = 0; i < n; i++) best_assignment[i] = current.assignment[i];\<close>\<close>

definition record_assignment :: "nat \<Rightarrow> int list \<Rightarrow> int list \<Rightarrow> int list" where
  "record_assignment n assignment old = fold (\<lambda>i ba. ba[i := assignment ! i]) [0 ..< n] old"

text \<open>
  One iteration of \<open>while (!pq_empty(&pq))\<close>.  The program never builds a node with
  \<open>level > n\<close>; for such a node the source would read row \<open>level\<close> of \<open>cost_matrix\<close> behind
  the live rows, which the model reports as an error.  Recording a complete assignment
  writes \<open>best_assignment[0..n)\<close>, an array of \<open>MAX_SIZE\<close> entries.
\<close>

definition as_step :: "int list list \<Rightarrow> nat \<Rightarrow> as_state \<Rightarrow> error + as_state" where
  "as_step cost_matrix n s =
     (case as_pq_pop (as_queue s) of
        Inl e \<Rightarrow> Inl e
      | Inr (current, q) \<Rightarrow>
          (let s1 = s\<lparr>as_queue := q, as_nodes_explored := as_nodes_explored s + 1\<rparr> in
           if as_bound current \<ge> min_cost s1 then
             Inr (s1\<lparr>as_nodes_pruned := as_nodes_pruned s1 + 1\<rparr>)
           else if as_level current = n then
             (if as_cost current < min_cost s1
              then (if MAX_SIZE < n then Inl IndexOutOfRange
                    else Inr (s1\<lparr>min_cost := as_cost current,
                                  best_assignment :=
                                    record_assignment n (as_assignment current) (best_assignment s1)\<rparr>))
              else Inr s1)
           else if n < as_level current then Inl IndexOutOfRange
           else as_branch cost_matrix n current [0 ..< n] s1))"



text \<open>
  The root node: \<open>AssignmentNode root;\<close> is an uninitialised local whose first \<open>n\<close>
  entries of \<open>assignment\<close> and \<open>worker_used\<close> are assigned; \<open>stack_assignment\<close> and
  \<open>stack_used\<close> are what the stack held.  For \<open>n > MAX_SIZE\<close> the loop writes behind the
  two arrays.
\<close>

definition as_root :: "int list list \<Rightarrow> nat \<Rightarrow> int list \<Rightarrow> int list \<Rightarrow> error + as_node" where
  "as_root cost_matrix n stack_assignment stack_used =
     (if MAX_SIZE < n then Inl IndexOutOfRange
      else
        (let nd = \<lparr>as_level = 0, as_cost = 0, as_bound = 0,
                   as_assignment = fold (\<lambda>i a. a[i := -1]) [0 ..< n] stack_assignment,
                   as_worker_used = fold (\<lambda>i a. a[i := 0]) [0 ..< n] stack_used\<rparr>
         in case as_calculate_bound cost_matrix n nd of
              Inl e \<Rightarrow> Inl e
            | Inr b \<Rightarrow> Inr (nd\<lparr>as_bound := b\<rparr>)))"

text \<open>
  The state in which \<open>solve_assignment\<close> enters its loop: \<open>min_cost = INF\<close>, the first \<open>n\<close>
  entries of the global \<open>best_assignment\<close> (\<open>MAX_SIZE\<close> entries) set to \<open>-1\<close>, the counters
  zero, and the root pushed.
\<close>

definition as_init ::
  "int list list \<Rightarrow> nat \<Rightarrow> int list \<Rightarrow> int list \<Rightarrow> int list \<Rightarrow> error + as_state" where
  "as_init cost_matrix n stack_assignment stack_used old_best_assignment =
     (if MAX_SIZE < n then Inl IndexOutOfRange
      else
        (case as_root cost_matrix n stack_assignment stack_used of
           Inl e \<Rightarrow> Inl e
         | Inr root_node \<Rightarrow>
             (case as_pq_push [] root_node of
                Inl e \<Rightarrow> Inl e
              | Inr q \<Rightarrow>
                  Inr \<lparr>as_queue = q, min_cost = C_INF,
                       best_assignment = fold (\<lambda>i a. a[i := -1]) [0 ..< n] old_best_assignment,
                       as_nodes_explored = 0, as_nodes_pruned = 0\<rparr>)))"




text \<open>Nodes that carry nothing but a bound, to exercise the queues.\<close>

definition kn_probe :: "real \<Rightarrow> knapsack_node" where
  "kn_probe b = \<lparr>kn_level = 0, kn_profit = 0, kn_weight = 0, kn_bound = b, kn_included = []\<rparr>"

definition tsp_probe :: "int \<Rightarrow> tsp_node" where
  "tsp_probe b = \<lparr>tsp_path = [], tsp_visited = [], tsp_cost = 0, tsp_bound = b, tsp_level = 1\<rparr>"

section \<open>Runs of the search loops\<close>

text \<open>
  \<open>kn_reaches items capacity s s'\<close>: the loop of \<open>solve_knapsack\<close>, started in state \<open>s\<close>, is
  in state \<open>s'\<close> after some number of iterations.  The same for the loops of \<open>solve_tsp\<close>
  and \<open>solve_assignment\<close>.
\<close>

inductive kn_reaches :: "item list \<Rightarrow> int \<Rightarrow> kn_state \<Rightarrow> kn_state \<Rightarrow> bool"
  for items :: "item list" and capacity :: int where
  kn_reaches_refl: "kn_reaches items capacity s s"
| kn_reaches_step:
    "kn_reaches items capacity s t \<Longrightarrow> kn_queue t \<noteq> [] \<Longrightarrow> kn_step items capacity t = Inr u
     \<Longrightarrow> kn_reaches items capacity s u"

inductive tsp_reaches :: "int list list \<Rightarrow> nat \<Rightarrow> tsp_state \<Rightarrow> tsp_state \<Rightarrow> bool"
  for graph :: "int list list" and n :: nat where
  tsp_reaches_refl: "tsp_reaches graph n s s"
| tsp_reaches_step:
    "tsp_reaches graph n s t \<Longrightarrow> tsp_queue t \<noteq> [] \<Longrightarrow> tsp_step graph n t = Inr u
     \<Longrightarrow> tsp_reaches graph n s u"

inductive as_reaches :: "int list list \<Rightarrow> nat \<Rightarrow> as_state \<Rightarrow> as_state \<Rightarrow> bool"
  for cost_matrix :: "int list list" and n :: nat where
  as_reaches_refl: "as_reaches cost_matrix n s s"
| as_reaches_step:
    "as_reaches cost_matrix n s t \<Longrightarrow> as_queue t \<noteq> [] \<Longrightarrow> as_step cost_matrix n t = Inr u
     \<Longrightarrow> as_reaches cost_matrix n s u"

text \<open>Small instances: one item, two cities, one worker.\<close>

definition one_item :: "item list" where
  "one_item = [\<lparr>item_weight = 1, item_value = 5, item_index = 0, item_ratio = 5\<rparr>]"

definition two_cities :: "int list list" where
  "two_cities = [[0, 5], [5, 0]]"

definition one_worker :: "int list list" where
  "one_worker = [[4]]"

section \<open>Tours and the nodes of the TSP search\<close>

text \<open>
  The cost of walking along a list of cities, and the cost of the tour that walks along
  the list and returns to its first city: the objective of the TSP.
\<close>

fun path_cost :: "int list list \<Rightarrow> nat list \<Rightarrow> int" where
  "path_cost graph [] = 0"
| "path_cost graph [a] = 0"
| "path_cost graph (a # b # cities) = graph ! a ! b + path_cost graph (b # cities)"

definition tour_cost :: "int list list \<Rightarrow> nat list \<Rightarrow> int" where
  "tour_cost graph cities = path_cost graph cities + graph ! last cities ! hd cities"

text \<open>
  The nodes that \<open>solve_tsp\<close> can build: the root, and each child that the branching loop
  builds from a node that is not terminal, for a city \<open>1 \<le> city < n\<close> that the node has
  not visited.  (Pruning only removes nodes from this set.)
\<close>

inductive tsp_built :: "int list list \<Rightarrow> nat \<Rightarrow> nat list \<Rightarrow> tsp_node \<Rightarrow> bool"
  for graph :: "int list list" and n :: nat and stack_path :: "nat list" where
  tsp_built_root: "tsp_root graph n stack_path = Inr nd \<Longrightarrow> tsp_built graph n stack_path nd"
| tsp_built_child:
    "tsp_built graph n stack_path cur \<Longrightarrow> tsp_level cur \<noteq> n \<Longrightarrow> 1 \<le> city \<Longrightarrow> city < n \<Longrightarrow>
     tsp_visited cur ! city = 0 \<Longrightarrow> tsp_child graph n cur city = Inr nd \<Longrightarrow>
     tsp_built graph n stack_path nd"

text \<open>
  The terminal node of scenario B with the path 0, 1, 3, 2, as the branching loop builds
  it from the root through the nodes with the paths 0, 1 and 0, 1, 3; and a state whose
  queue holds just this node.
\<close>

definition scenario_B_terminal :: tsp_node where
  "scenario_B_terminal =
     \<lparr>tsp_path = [0, 1, 3, 2, 0, 0, 0, 0, 0, 0, 0, 0, 0, 0, 0, 0, 0, 0, 0, 0],
      tsp_visited = [1, 1, 1, 1, 0, 0, 0, 0, 0, 0, 0, 0, 0, 0, 0, 0, 0, 0, 0, 0],
      tsp_cost = 65, tsp_bound = 87, tsp_level = 4\<rparr>"

definition scenario_B_last_state :: tsp_state where
  "scenario_B_last_state =
     \<lparr>tsp_queue = [scenario_B_terminal], best_cost = C_INF, best_path = replicate 21 0,
      tsp_nodes_explored = 0, tsp_nodes_pruned = 0\<rparr>"

text \<open>
  A second instance, and its terminal node with the path 0, 2, 1, 3 in a state where the
  incumbent is 17: the bound of the node is 17 too, although its tour costs 15.
\<close>

definition detour_graph :: "int list list" where
  "detour_graph = [[0, 6, 1, 1], [6, 0, 5, 8], [1, 5, 0, 5], [1, 8, 5, 0]]"

definition detour_terminal :: tsp_node where
  "detour_terminal =
     \<lparr>tsp_path = [0, 2, 1, 3, 0, 0, 0, 0, 0, 0, 0, 0, 0, 0, 0, 0, 0, 0, 0, 0],
      tsp_visited = [1, 1, 1, 1, 0, 0, 0, 0, 0, 0, 0, 0, 0, 0, 0, 0, 0, 0, 0, 0],
      tsp_cost = 14, tsp_bound = 17, tsp_level = 4\<rparr>"

definition detour_state :: tsp_state where
  "detour_state =
     \<lparr>tsp_queue = [detour_terminal], best_cost = 17,
      best_path = [0, 3, 2, 1, 0, 0, 0, 0, 0, 0, 0, 0, 0, 0, 0, 0, 0, 0, 0, 0, 0],
      tsp_nodes_explored = 0, tsp_nodes_pruned = 0\<rparr>"

section \<open>Double precision arithmetic\<close>

text \<open>
  The facility program computes with \<open>double\<close>: IEEE 754 binary64, rounding to nearest
  with ties to even.  A \<open>double\<close> is a finite number \<open>m * 2\<^sup>e\<close> with \<open>|m| < 2\<^sup>5\<^sup>3\<close> and
  \<open>-1074 \<le> e \<le> 971\<close>, an infinity, or a NaN.  The finite values are modelled by the real
  numbers they denote, so the two zeros are one value; the program divides by
  \<open>num_customers\<close> only, inside loops that run when it is not zero, and otherwise adds,
  subtracts, negates, copies and compares, none of which tells the zeros apart.
  \<open>DBL_MAX\<close> is the largest finite double, \<open>(2 - 2\<^sup>-\<^sup>5\<^sup>2) * 2\<^sup>1\<^sup>0\<^sup>2\<^sup>3\<close>.
\<close>

definition DBL_MAX :: real where
  "DBL_MAX = (2 - 1 / 2 ^ 52) * 2 ^ 1023"

datatype double = Dbl real | PInf | NInf | NaN

text \<open>\<open>pow2 e\<close> is \<open>2\<^sup>e\<close> for an integer \<open>e\<close>.\<close>

definition pow2 :: "int \<Rightarrow> real" where
  "pow2 e = (if 0 \<le> e then 2 ^ nat e else 1 / 2 ^ nat (- e))"

text \<open>
  The binary exponent of \<open>x \<noteq> 0\<close>, the integer \<open>e\<close> with \<open>2\<^sup>e \<le> |x| < 2\<^sup>e\<^sup>+\<^sup>1\<close>, computed from
  the bit length of \<open>\<lfloor>|x|\<rfloor>\<close> when \<open>|x| \<ge> 1\<close> and of \<open>\<lceil>1 / |x|\<rceil> - 1\<close> otherwise.
\<close>

definition dbl_exponent :: "real \<Rightarrow> int" where
  "dbl_exponent x =
     (if 1 \<le> \<bar>x\<bar> then bitlen \<lfloor>\<bar>x\<bar>\<rfloor> - 1 else - bitlen (\<lceil>1 / \<bar>x\<bar>\<rceil> - 1))"

text \<open>Rounding to the nearest integer, a tie going to the even one.\<close>

definition round_even :: "real \<Rightarrow> int" where
  "round_even y =
     (if y - of_int \<lfloor>y\<rfloor> < 1 / 2 then \<lfloor>y\<rfloor>
      else if 1 / 2 < y - of_int \<lfloor>y\<rfloor> then \<lfloor>y\<rfloor> + 1
      else if even \<lfloor>y\<rfloor> then \<lfloor>y\<rfloor> else \<lfloor>y\<rfloor> + 1)"

text \<open>
  Rounding a real number to 53 significant bits: the unit in the last place of \<open>x\<close> is
  \<open>2\<^sup>e\<^sup>-\<^sup>5\<^sup>2\<close> for the exponent \<open>e\<close> of \<open>x\<close>, and \<open>2\<^sup>-\<^sup>1\<^sup>0\<^sup>7\<^sup>4\<close> for the subnormal numbers.  A result
  above \<open>DBL_MAX\<close> is an overflow and gives an infinity.
\<close>

definition dbl_round :: "real \<Rightarrow> real" where
  "dbl_round x =
     (if x = 0 then 0
      else (let u = pow2 (max (dbl_exponent x) (- 1022) - 52)
            in of_int (round_even (x / u)) * u))"

definition to_double :: "real \<Rightarrow> double" where
  "to_double x =
     (let r = dbl_round x
      in if DBL_MAX < r then PInf else if r < - DBL_MAX then NInf else Dbl r)"

text \<open>The operations \<open>-x\<close>, \<open>x + y\<close>, \<open>x - y\<close>, \<open>x / y\<close>, \<open>x < y\<close>, \<open>x <= y\<close> and \<open>x != y\<close>.\<close>

fun dbl_neg :: "double \<Rightarrow> double" where
  "dbl_neg (Dbl a) = Dbl (- a)"
| "dbl_neg PInf = NInf"
| "dbl_neg NInf = PInf"
| "dbl_neg NaN = NaN"

fun dbl_add :: "double \<Rightarrow> double \<Rightarrow> double" where
  "dbl_add (Dbl a) (Dbl b) = to_double (a + b)"
| "dbl_add NaN y = NaN"
| "dbl_add x NaN = NaN"
| "dbl_add PInf NInf = NaN"
| "dbl_add NInf PInf = NaN"
| "dbl_add PInf y = PInf"
| "dbl_add x PInf = PInf"
| "dbl_add NInf y = NInf"
| "dbl_add x NInf = NInf"

definition dbl_sub :: "double \<Rightarrow> double \<Rightarrow> double" where
  "dbl_sub x y = dbl_add x (dbl_neg y)"

fun dbl_div :: "double \<Rightarrow> double \<Rightarrow> double" where
  "dbl_div (Dbl a) (Dbl b) =
     (if b = 0 then (if a = 0 then NaN else if 0 < a then PInf else NInf)
      else to_double (a / b))"
| "dbl_div NaN y = NaN"
| "dbl_div x NaN = NaN"
| "dbl_div (Dbl a) y = Dbl 0"
| "dbl_div PInf (Dbl b) = (if 0 \<le> b then PInf else NInf)"
| "dbl_div NInf (Dbl b) = (if 0 \<le> b then NInf else PInf)"
| "dbl_div x y = NaN"

fun dbl_lt :: "double \<Rightarrow> double \<Rightarrow> bool" where
  "dbl_lt (Dbl a) (Dbl b) = (a < b)"
| "dbl_lt NaN y = False"
| "dbl_lt x NaN = False"
| "dbl_lt PInf y = False"
| "dbl_lt x PInf = True"
| "dbl_lt x NInf = False"
| "dbl_lt NInf y = True"

fun dbl_le :: "double \<Rightarrow> double \<Rightarrow> bool" where
  "dbl_le (Dbl a) (Dbl b) = (a \<le> b)"
| "dbl_le NaN y = False"
| "dbl_le x NaN = False"
| "dbl_le x PInf = True"
| "dbl_le PInf y = False"
| "dbl_le NInf y = True"
| "dbl_le x NInf = False"

definition dbl_ne :: "double \<Rightarrow> double \<Rightarrow> bool" where
  "dbl_ne x y = (x = NaN \<or> y = NaN \<or> x \<noteq> y)"

section \<open>FacilityLocation.c: the initial incumbent\<close>

subsection \<open>Data\<close>

definition MAX_FACILITIES :: nat where
  "MAX_FACILITIES = 10"

definition MAX_CUSTOMERS :: nat where
  "MAX_CUSTOMERS = 15"

text \<open>The globals \<open>facility_costs\<close>, \<open>service_costs\<close>, \<open>num_facilities\<close> and \<open>num_customers\<close>.\<close>

record fl_instance =
  facility_costs :: "double list"
  service_costs :: "double list list"
  num_facilities :: nat
  num_customers :: nat

record facility_node =
  fn_level :: nat
  fn_facility_open :: "int list"
  fn_fixed_cost :: double
  fn_service_cost :: double
  fn_total_cost :: double
  fn_bound :: double

record facility_solution =
  fs_facility_open :: "int list"
  fs_customer_assignment :: "int list"
  fs_fixed_cost :: double
  fs_service_cost :: double
  fs_total_cost :: double

subsection \<open>The greedy heuristic\<close>

definition get_current_service_cost :: "fl_instance \<Rightarrow> nat \<Rightarrow> int list \<Rightarrow> double" where
  "get_current_service_cost P customer facility_open =
     fold (\<lambda>i current.
             if facility_open ! i \<noteq> 0 \<and> dbl_lt (service_costs P ! i ! customer) current
             then service_costs P ! i ! customer else current)
          [0 ..< num_facilities P] (Dbl DBL_MAX)"

text \<open>
  \<open>calculate_improvement\<close>: \<open>improvement = -facility_costs[facility]\<close>, then for every
  customer either \<open>improvement += DBL_MAX / num_customers\<close> (not served yet) or
  \<open>improvement += current_cost - new_cost\<close> (served, and the facility is cheaper).
\<close>

definition calculate_improvement :: "fl_instance \<Rightarrow> nat \<Rightarrow> int list \<Rightarrow> int list \<Rightarrow> double" where
  "calculate_improvement P facility facility_open customer_served =
     fold (\<lambda>j improvement.
             if customer_served ! j = 0
             then dbl_add improvement (dbl_div (Dbl DBL_MAX) (Dbl (real (num_customers P))))
             else (let current_cost = get_current_service_cost P j facility_open;
                       new_cost = service_costs P ! facility ! j
                   in if dbl_lt new_cost current_cost
                      then dbl_add improvement (dbl_sub current_cost new_cost)
                      else improvement))
          [0 ..< num_customers P] (dbl_neg (facility_costs P ! facility))"

text \<open>
  The state of \<open>greedy_heuristic\<close>: the locals \<open>facility_open\<close>, \<open>customer_served\<close> and
  \<open>total_cost\<close>.
\<close>

record greedy_state =
  g_open :: "int list"
  g_served :: "int list"
  g_total :: double

text \<open>
  The \<open>for\<close> loop that selects the closed facility with the largest improvement; the
  result is \<open>(best_improvement, best_facility)\<close>, with \<open>best_facility = -1\<close> for none.
\<close>

definition greedy_select :: "fl_instance \<Rightarrow> greedy_state \<Rightarrow> double \<times> int" where
  "greedy_select P st =
     fold (\<lambda>i best.
             if g_open st ! i = 0 then
               (let improvement = calculate_improvement P i (g_open st) (g_served st)
                in if dbl_lt (fst best) improvement then (improvement, int i) else best)
             else best)
          [0 ..< num_facilities P] (Dbl 0, -1)"

text \<open>Opening \<open>best_facility\<close> and the loop that updates the customers.\<close>

definition greedy_open :: "fl_instance \<Rightarrow> nat \<Rightarrow> greedy_state \<Rightarrow> greedy_state" where
  "greedy_open P best st =
     (let st1 = st\<lparr>g_open := (g_open st)[best := 1],
                   g_total := dbl_add (g_total st) (facility_costs P ! best)\<rparr>
      in fold (\<lambda>j s.
                 if g_served s ! j = 0 then
                   s\<lparr>g_served := (g_served s)[j := 1],
                     g_total := dbl_add (g_total s) (service_costs P ! best ! j)\<rparr>
                 else (let current_cost = get_current_service_cost P j (g_open s)
                       in if dbl_lt (service_costs P ! best ! j) current_cost
                          then s\<lparr>g_total := dbl_add (dbl_sub (g_total s) current_cost)
                                                 (service_costs P ! best ! j)\<rparr>
                          else s))
              [0 ..< num_customers P] st1)"

text \<open>The loop \<open>while (1)\<close>, which breaks when no facility improves the cost.\<close>

partial_function (option) greedy_loop :: "fl_instance \<Rightarrow> greedy_state \<Rightarrow> greedy_state option" where
  "greedy_loop P st =
     (case greedy_select P st of
        (best_improvement, best_facility) \<Rightarrow>
          if best_facility = -1 \<or> dbl_le best_improvement (Dbl 0) then Some st
          else greedy_loop P (greedy_open P (nat best_facility) st))"

declare greedy_loop.simps [code]

text \<open>The loop ``ensure all customers are served''.\<close>

definition cheapest_facility :: "fl_instance \<Rightarrow> nat \<Rightarrow> double \<times> int" where
  "cheapest_facility P j =
     fold (\<lambda>i best.
             if dbl_lt (dbl_add (facility_costs P ! i) (service_costs P ! i ! j)) (fst best)
             then (dbl_add (facility_costs P ! i) (service_costs P ! i ! j), int i) else best)
          [0 ..< num_facilities P] (Dbl DBL_MAX, -1)"

definition greedy_ensure :: "fl_instance \<Rightarrow> greedy_state \<Rightarrow> greedy_state" where
  "greedy_ensure P st =
     fold (\<lambda>j s.
             if g_served s ! j = 0 then
               (case cheapest_facility P j of
                  (cheapest_cost, cheapest) \<Rightarrow>
                    if cheapest \<noteq> -1 \<and> g_open s ! nat cheapest = 0
                    then s\<lparr>g_open := (g_open s)[nat cheapest := 1],
                           g_total := dbl_add (g_total s) (facility_costs P ! nat cheapest)\<rparr>
                    else s)
             else s)
          [0 ..< num_customers P] st"

subsection \<open>Building a solution from the open facilities\<close>

text \<open>
  The first loop of \<open>construct_solution\<close>: it copies the flags and returns
  \<open>(facility_open, has_facility, fixed_cost)\<close>.
\<close>

definition copy_open :: "fl_instance \<Rightarrow> facility_node \<Rightarrow> int list \<Rightarrow> int list \<times> bool \<times> double" where
  "copy_open P node sol_open =
     fold (\<lambda>i (opn, has, fixed).
             if fn_facility_open node ! i \<noteq> 0
             then (opn[i := fn_facility_open node ! i], True, dbl_add fixed (facility_costs P ! i))
             else (opn[i := fn_facility_open node ! i], has, fixed))
          [0 ..< num_facilities P] (sol_open, False, Dbl 0)"

text \<open>The cheapest open facility for customer \<open>j\<close>: \<open>(min_cost, best_facility)\<close>.\<close>

definition best_open_facility :: "fl_instance \<Rightarrow> int list \<Rightarrow> nat \<Rightarrow> double \<times> int" where
  "best_open_facility P opn j =
     fold (\<lambda>i best.
             if opn ! i \<noteq> 0 \<and> dbl_lt (service_costs P ! i ! j) (fst best)
             then (service_costs P ! i ! j, int i) else best)
          [0 ..< num_facilities P] (Dbl DBL_MAX, -1)"

text \<open>
  \<open>FacilitySolution solution;\<close> is an uninitialised local of \<open>construct_solution\<close>;
  \<open>stack_solution\<close> is what the stack held.
\<close>

definition construct_solution ::
  "fl_instance \<Rightarrow> facility_node \<Rightarrow> facility_solution \<Rightarrow> facility_solution" where
  "construct_solution P node stack_solution =
     (case copy_open P node (fs_facility_open stack_solution) of
        (opn, has_facility, fixed) \<Rightarrow>
          if \<not> has_facility then
            stack_solution\<lparr>fs_facility_open := opn, fs_fixed_cost := fixed,
                           fs_service_cost := Dbl 0, fs_total_cost := Dbl DBL_MAX\<rparr>
          else
            (case fold (\<lambda>j (assignment, service).
                          (assignment[j := snd (best_open_facility P opn j)],
                           dbl_add service (fst (best_open_facility P opn j))))
                       [0 ..< num_customers P] (fs_customer_assignment stack_solution, Dbl 0) of
               (assignment, service) \<Rightarrow>
                 \<lparr>fs_facility_open = opn, fs_customer_assignment = assignment,
                  fs_fixed_cost = fixed, fs_service_cost = service,
                  fs_total_cost = dbl_add fixed service\<rparr>))"

text \<open>
  \<open>greedy_heuristic\<close>.  \<open>FacilityNode greedy_node;\<close> is an uninitialised local of which
  \<open>level\<close>, \<open>fixed_cost\<close> and the first \<open>num_facilities\<close> flags are assigned;
  \<open>stack_node\<close> is what the stack held.  The locals \<open>facility_open\<close> and
  \<open>customer_served\<close> have \<open>MAX_FACILITIES\<close> and \<open>MAX_CUSTOMERS\<close> entries and are indexed up
  to \<open>num_facilities\<close> and \<open>num_customers\<close> without a test.
\<close>

definition greedy_node :: "fl_instance \<Rightarrow> greedy_state \<Rightarrow> facility_node \<Rightarrow> facility_node" where
  "greedy_node P st stack_node =
     fold (\<lambda>i nd.
             if g_open st ! i \<noteq> 0
             then nd\<lparr>fn_facility_open := (fn_facility_open nd)[i := g_open st ! i],
                     fn_fixed_cost := dbl_add (fn_fixed_cost nd) (facility_costs P ! i)\<rparr>
             else nd\<lparr>fn_facility_open := (fn_facility_open nd)[i := g_open st ! i]\<rparr>)
          [0 ..< num_facilities P]
          (stack_node\<lparr>fn_level := num_facilities P, fn_fixed_cost := Dbl 0\<rparr>)"

definition greedy_heuristic ::
  "fl_instance \<Rightarrow> facility_node \<Rightarrow> facility_solution \<Rightarrow> (error + facility_solution) option" where
  "greedy_heuristic P stack_node stack_solution =
     (if MAX_FACILITIES < num_facilities P \<or> MAX_CUSTOMERS < num_customers P
      then Some (Inl IndexOutOfRange)
      else map_option
             (\<lambda>st. Inr (construct_solution P (greedy_node P (greedy_ensure P st) stack_node)
                          stack_solution))
             (greedy_loop P \<lparr>g_open = replicate MAX_FACILITIES 0,
                              g_served = replicate MAX_CUSTOMERS 0, g_total = Dbl 0\<rparr>))"

subsection \<open>The incumbent at the start of the search\<close>

text \<open>
  The beginning of \<open>solve_facility_location\<close>: \<open>best_cost = DBL_MAX;\<close> then
  \<open>greedy_solution = greedy_heuristic(); if (greedy_solution.total_cost != DBL_MAX)
  { best_solution = greedy_solution; best_cost = greedy_solution.total_cost; }\<close>.
  The result is the pair of the globals \<open>(best_solution, best_cost)\<close>;
  \<open>old_best_solution\<close> is the content of the global \<open>best_solution\<close> before the call.
\<close>

definition fl_incumbent_init ::
  "fl_instance \<Rightarrow> facility_node \<Rightarrow> facility_solution \<Rightarrow> facility_solution
   \<Rightarrow> (error + facility_solution \<times> double) option" where
  "fl_incumbent_init P stack_node stack_solution old_best_solution =
     map_option
       (\<lambda>r. case r of
               Inl e \<Rightarrow> Inl e
             | Inr greedy_solution \<Rightarrow>
                 if dbl_ne (fs_total_cost greedy_solution) (Dbl DBL_MAX)
                 then Inr (greedy_solution, fs_total_cost greedy_solution)
                 else Inr (old_best_solution, Dbl DBL_MAX))
       (greedy_heuristic P stack_node stack_solution)"

text \<open>A small instance: two facilities, two customers.\<close>

definition two_facilities :: fl_instance where
  "two_facilities =
     \<lparr>facility_costs = [Dbl 60, Dbl 50], service_costs = [[Dbl 1, Dbl 4], [Dbl 3, Dbl 2]],
      num_facilities = 2, num_customers = 2\<rparr>"

definition blank_node :: facility_node where
  "blank_node = \<lparr>fn_level = 0, fn_facility_open = replicate MAX_FACILITIES 0, fn_fixed_cost = Dbl 0,
                 fn_service_cost = Dbl 0, fn_total_cost = Dbl 0, fn_bound = Dbl 0\<rparr>"

definition blank_solution :: facility_solution where
  "blank_solution = \<lparr>fs_facility_open = replicate MAX_FACILITIES 0,
                     fs_customer_assignment = replicate MAX_CUSTOMERS 0,
                     fs_fixed_cost = Dbl 0, fs_service_cost = Dbl 0, fs_total_cost = Dbl 0\<rparr>"

subsection \<open>Instances and solutions\<close>







section \<open>Invariants of the knapsack search\<close>




section \<open>An instance that overflows the queue\<close>

text \<open>
  Twenty items of weight 2 and value 2 (ratio 1) and capacity 21: an instance within
  \<open>MAX_ITEMS\<close> and \<open>MAX_CAPACITY\<close>.
\<close>

definition overflow_items :: "item list" where
  "overflow_items =
     map (\<lambda>i. \<lparr>item_weight = 2, item_value = 2, item_index = i, item_ratio = 1\<rparr>) [0 ..< 20]"

text \<open>
  The nodes of the search on such an instance: \<open>j\<close> items included and \<open>e\<close> items
  excluded, with at most 10 of either; the bound is 21 as long as \<open>e \<le> 9\<close>.
\<close>

definition canon_at :: "nat \<Rightarrow> nat \<Rightarrow> knapsack_node \<Rightarrow> bool" where
  "canon_at j e nd =
     (j \<le> 10 \<and> e \<le> 10 \<and> kn_level nd = j + e \<and> kn_profit nd = 2 * int j \<and>
      kn_weight nd = 2 * int j \<and> kn_bound nd = (if e \<le> 9 then 21 else 20))"

definition canon :: "knapsack_node \<Rightarrow> bool" where
  "canon nd = (\<exists>j e. canon_at j e nd)"

text \<open>
  The number of nodes with ten exclusions below a node: a potential that branching
  keeps, and a measure that branching decreases.
\<close>

definition pot :: "knapsack_node \<Rightarrow> nat" where
  "pot nd = (20 - kn_level nd) choose (10 - (kn_level nd - nat (kn_profit nd div 2)))"

definition ov_potential :: "knapsack_node list \<Rightarrow> nat" where
  "ov_potential q = sum_list (map pot q)"

definition ov_measure :: "kn_state \<Rightarrow> nat" where
  "ov_measure s = sum_list (map (\<lambda>nd. 3 ^ (21 - kn_level nd)) (kn_queue s))"

definition ov_inv :: "kn_state \<Rightarrow> bool" where
  "ov_inv s =
     (max_profit s = 0 \<and> heap_ok kn_le (kn_queue s) \<and> (\<forall>nd \<in> set (kn_queue s). canon nd) \<and>
      10001 \<le> ov_potential (kn_queue s) \<and> length (kn_queue s) \<le> KN_QUEUE_CAP)"

section \<open>What two runs of a solver agree on\<close>

text \<open>
  Two nodes agree when they differ at most in the entries \<open>path[level..)\<close>, which no
  statement of the program reads.  Two states agree when their queues agree node by
  node, \<open>best_cost\<close> and the counters are equal, and \<open>best_path[0..n]\<close> is equal provided
  a tour has been recorded (\<open>best_cost < INF\<close>).
\<close>

definition node_eq :: "tsp_node \<Rightarrow> tsp_node \<Rightarrow> bool" where
  "node_eq a b =
     (tsp_level a = tsp_level b \<and> tsp_cost a = tsp_cost b \<and> tsp_bound a = tsp_bound b \<and>
      tsp_visited a = tsp_visited b \<and> length (tsp_path a) = length (tsp_path b) \<and>
      take (tsp_level a) (tsp_path a) = take (tsp_level a) (tsp_path b))"




section \<open>Properties of the binary heap\<close>

lemma length_swap [simp]: "length (swap ns i j) = length ns"
  by (simp add: swap_def)

lemma mset_swap_heap: "i < length ns \<Longrightarrow> j < length ns \<Longrightarrow> mset (swap ns i j) = mset ns"
  unfolding swap_def by (simp add: mset_swap)

lemma nth_swap:
  "i < length ns \<Longrightarrow> j < length ns \<Longrightarrow> k < length ns \<Longrightarrow>
   swap ns i j ! k = (if k = i then ns ! j else if k = j then ns ! i else ns ! k)"
  by (auto simp: swap_def nth_list_update)

lemma length_bubble_up [simp]: "length (bubble_up le ns i) = length ns"
  by (induction le ns i rule: bubble_up.induct) (subst bubble_up.simps, simp)

lemma length_bubble_down [simp]: "length (bubble_down le ns i) = length ns"
  by (induction le ns i rule: bubble_down.induct) (subst bubble_down.simps, simp)

lemma largest_child_bounds:
  "2 * i + 1 < length ns \<Longrightarrow> largest_child le ns i < length ns \<and> i < largest_child le ns i"
  by (simp add: largest_child_def)

lemma mset_bubble_up: "i < length ns \<Longrightarrow> mset (bubble_up le ns i) = mset ns"
proof (induction le ns i rule: bubble_up.induct)
  case (1 le ns i)
  show ?case
  proof (cases "0 < i \<and> \<not> le (ns ! i) (ns ! ((i - 1) div 2))")
    case True
    then have p: "(i - 1) div 2 < length ns" using "1.prems" by simp
    have "mset (bubble_up le (swap ns i ((i - 1) div 2)) ((i - 1) div 2)) = mset (swap ns i ((i - 1) div 2))"
      using "1.IH" True p by simp
    then show ?thesis
      using True p "1.prems" by (subst bubble_up.simps) (simp add: mset_swap_heap)
  next
    case False
    then show ?thesis by (subst bubble_up.simps) auto
  qed
qed

lemma mset_bubble_down: "mset (bubble_down le ns i) = mset ns"
proof (induction le ns i rule: bubble_down.induct)
  case (1 le ns i)
  show ?case
  proof (cases "2 * i + 1 < length ns \<and> \<not> le (ns ! largest_child le ns i) (ns ! i)")
    case True
    then have c: "largest_child le ns i < length ns" "i < length ns"
      using largest_child_bounds[of i ns le] by auto
    have "mset (bubble_down le (swap ns i (largest_child le ns i)) (largest_child le ns i))
            = mset (swap ns i (largest_child le ns i))"
      using "1.IH" True by simp
    then show ?thesis
      using True c by (subst bubble_down.simps) (simp add: mset_swap_heap)
  next
    case False
    then show ?thesis by (subst bubble_down.simps) auto
  qed
qed


lemma total_preorderD:
  assumes "total_preorder le"
  shows "\<not> le a b \<Longrightarrow> le b a" and "le a b \<Longrightarrow> le b c \<Longrightarrow> le a c" and "le a a"
  using assms unfolding total_preorder_def by blast+

lemma heap_ok_root_best:
  assumes tp: "total_preorder le" and ok: "heap_ok le ns"
  shows "i < length ns \<Longrightarrow> le (ns ! i) (ns ! 0)"
proof (induction i rule: less_induct)
  case (less i)
  show ?case
  proof (cases "i = 0")
    case True
    then show ?thesis using total_preorderD(3)[OF tp] by simp
  next
    case False
    then have "le (ns ! i) (ns ! ((i - 1) div 2))"
      using ok less.prems by (simp add: heap_ok_def)
    moreover have "le (ns ! ((i - 1) div 2)) (ns ! 0)"
      using less.IH[of "(i - 1) div 2"] less.prems False by simp
    ultimately show ?thesis using total_preorderD(2)[OF tp] by blast
  qed
qed

lemma parent_less: "0 < k \<Longrightarrow> (k - 1) div 2 < (k::nat)"
  by arith

lemma up_inv_heap_ok:
  "total_preorder le \<Longrightarrow> i < length ns \<Longrightarrow> up_inv le ns i \<Longrightarrow> heap_ok le (bubble_up le ns i)"
proof (induction le ns i rule: bubble_up.induct)
  case (1 le ns i)
  note tp = "1.prems"(1)
  let ?p = "(i - 1) div 2"
  show ?case
  proof (cases "0 < i")
    case False
    then show ?thesis using "1.prems" 
      by (subst bubble_up.simps) (auto simp: up_inv_def heap_ok_def)
  next
    case pos: True
    show ?thesis
    proof (cases "le (ns ! i) (ns ! ?p)")
      case True
      then show ?thesis using "1.prems" pos
        by (subst bubble_up.simps) (auto simp: up_inv_def heap_ok_def)
    next
      case False
      then have pi: "le (ns ! ?p) (ns ! i)" using total_preorderD(1)[OF tp] by blast
      have plt: "?p < i" "?p < length ns" using pos "1.prems" by auto
      have inv: "up_inv le (swap ns i ?p) ?p"
        unfolding up_inv_def
      proof (intro conjI allI impI)
        fix j assume j: "0 < j \<and> j < length (swap ns i ?p) \<and> j \<noteq> ?p"
        then have jl: "j < length ns" by simp
        have pj: "(j - 1) div 2 < length ns" using jl by simp
        show "le (swap ns i ?p ! j) (swap ns i ?p ! ((j - 1) div 2))"
        proof (cases "j = i")
          case True
          then show ?thesis using pi plt "1.prems"(2) by (simp add: nth_swap)
        next
          case ji: False
          have a: "le (ns ! j) (ns ! ((j - 1) div 2))"
            using "1.prems"(3) j ji by (simp add: up_inv_def)
          show ?thesis
          proof (cases "(j - 1) div 2 = i")
            case True
            then have "le (ns ! j) (ns ! ?p)"
              using "1.prems"(3) j pos by (simp add: up_inv_def)
            then show ?thesis using True j ji jl plt "1.prems"(2) by (simp add: nth_swap)
          next
            case ni: False
            show ?thesis
            proof (cases "(j - 1) div 2 = ?p")
              case True
              then have "le (ns ! j) (ns ! i)"
                using a pi total_preorderD(2)[OF tp] by metis
              then show ?thesis using True j ji jl plt "1.prems"(2) by (simp add: nth_swap)
            next
              case False
              then show ?thesis using a ni j ji jl pj plt "1.prems"(2) by (simp add: nth_swap)
            qed
          qed
        qed
      next
        fix j assume j: "0 < j \<and> j < length (swap ns i ?p) \<and> (j - 1) div 2 = ?p \<and> 0 < ?p"
        then have jl: "j < length ns" by simp
        have pp: "(?p - 1) div 2 < ?p" using j parent_less[of ?p] by blast
        have pup: "le (ns ! ?p) (ns ! ((?p - 1) div 2))"
          using "1.prems"(3) j plt by (simp add: up_inv_def)
        have tgt: "swap ns i ?p ! ((?p - 1) div 2) = ns ! ((?p - 1) div 2)"
          using pp plt "1.prems"(2) by (simp add: nth_swap)
        show "le (swap ns i ?p ! j) (swap ns i ?p ! ((?p - 1) div 2))"
        proof (cases "j = i")
          case True
          then show ?thesis using pup tgt plt "1.prems"(2) by (simp add: nth_swap)
        next
          case False
          have "j \<noteq> ?p" using j parent_less[of j] by auto
          moreover have "le (ns ! j) (ns ! ?p)"
            using "1.prems"(3) j False by (auto simp: up_inv_def)
          then have "le (ns ! j) (ns ! ((?p - 1) div 2))"
            using pup total_preorderD(2)[OF tp] by blast
          ultimately show ?thesis using False tgt jl plt "1.prems"(2) by (simp add: nth_swap)
        qed
      qed
      have "heap_ok le (bubble_up le (swap ns i ?p) ?p)"
        using "1.IH"[OF pos False tp _ inv] plt by simp
      then show ?thesis using pos False by (subst bubble_up.simps) simp
    qed
  qed
qed


lemma children_of: "0 < j \<Longrightarrow> (j - 1) div 2 = i \<Longrightarrow> j = 2 * i + 1 \<or> j = 2 * i + (2::nat)"
  by arith

lemma largest_child_parent: "(largest_child le ns i - 1) div 2 = i"
  by (simp add: largest_child_def)

lemma largest_child_best:
  assumes tp: "total_preorder le" and j: "0 < j" "j < length ns" "(j - 1) div 2 = i"
  shows "le (ns ! j) (ns ! largest_child le ns i)"
proof -
  from children_of[OF j(1) j(3)] show ?thesis
  proof
    assume l: "j = 2 * i + 1"
    show ?thesis
      using total_preorderD(1,3)[OF tp] l by (auto simp: largest_child_def)
  next
    assume r: "j = 2 * i + 2"
    show ?thesis
      using total_preorderD(3)[OF tp] r j(2) by (auto simp: largest_child_def)
  qed
qed

lemma down_inv_heap_ok:
  "total_preorder le \<Longrightarrow> down_inv le ns i \<Longrightarrow> heap_ok le (bubble_down le ns i)"
proof (induction le ns i rule: bubble_down.induct)
  case (1 le ns i)
  note tp = "1.prems"(1)
  note inv = "1.prems"(2)
  let ?c = "largest_child le ns i"
  show ?case
  proof (cases "2 * i + 1 < length ns")
    case False
    have "heap_ok le ns"
      unfolding heap_ok_def
    proof (intro allI impI)
      fix j assume j: "0 < j \<and> j < length ns"
      then have "(j - 1) div 2 \<noteq> i" using False children_of[of j i] by auto
      then show "le (ns ! j) (ns ! ((j - 1) div 2))" using inv j by (simp add: down_inv_def)
    qed
    then show ?thesis using False by (subst bubble_down.simps) simp
  next
    case has: True
    have cb: "?c < length ns" "i < ?c" using largest_child_bounds[OF has] by auto
    have il: "i < length ns" using has by simp
    show ?thesis
    proof (cases "le (ns ! ?c) (ns ! i)")
      case True
      have "heap_ok le ns"
        unfolding heap_ok_def
      proof (intro allI impI)
        fix j assume j: "0 < j \<and> j < length ns"
        show "le (ns ! j) (ns ! ((j - 1) div 2))"
        proof (cases "(j - 1) div 2 = i")
          case pj: True
          have "le (ns ! j) (ns ! ?c)" using largest_child_best[OF tp _ _ pj] j by simp
          then show ?thesis using True pj total_preorderD(2)[OF tp] by metis
        next
          case False
          then show ?thesis using inv j by (simp add: down_inv_def)
        qed
      qed
      then show ?thesis using has True by (subst bubble_down.simps) simp
    next
      case False
      then have ic: "le (ns ! i) (ns ! ?c)" using total_preorderD(1)[OF tp] by blast
      have inv': "down_inv le (swap ns i ?c) ?c"
        unfolding down_inv_def
      proof (intro conjI allI impI)
        fix j assume j: "0 < j \<and> j < length (swap ns i ?c) \<and> (j - 1) div 2 \<noteq> ?c"
        then have jl: "j < length ns" by simp
        have pjl: "(j - 1) div 2 < length ns" using jl by simp
        show "le (swap ns i ?c ! j) (swap ns i ?c ! ((j - 1) div 2))"
        proof (cases "j = ?c")
          case True
          then show ?thesis using ic cb il largest_child_parent[of le ns i]
            by (simp add: nth_swap)
        next
          case jc: False
          show ?thesis
          proof (cases "j = i")
            case True
            then have ipos: "0 < i" using j by simp
            have pi: "(i - 1) div 2 < i" using parent_less[OF ipos] .
            have "le (ns ! ?c) (ns ! ((i - 1) div 2))"
              using inv ipos cb largest_child_parent[of le ns i] by (simp add: down_inv_def)
            then show ?thesis using True pi cb il by (simp add: nth_swap)
          next
            case ji: False
            show ?thesis
            proof (cases "(j - 1) div 2 = i")
              case True
              have "le (ns ! j) (ns ! ?c)" using largest_child_best[OF tp _ jl True] j by simp
              then show ?thesis using True jc ji jl cb il by (simp add: nth_swap)
            next
              case False
              then have "le (ns ! j) (ns ! ((j - 1) div 2))" using inv j by (simp add: down_inv_def)
              then show ?thesis using False j jc ji jl pjl cb il by (simp add: nth_swap)
            qed
          qed
        qed
      next
        fix j assume j: "0 < j \<and> j < length (swap ns i ?c) \<and> (j - 1) div 2 = ?c \<and> 0 < ?c"
        then have jl: "j < length ns" by simp
        have jgt: "?c < j" using j parent_less[of j] by simp
        have "(j - 1) div 2 \<noteq> i" using j cb by simp
        then have "le (ns ! j) (ns ! ((j - 1) div 2))"
          using inv j unfolding down_inv_def by auto
        then have "le (ns ! j) (ns ! ?c)" using j by simp
        then show "le (swap ns i ?c ! j) (swap ns i ?c ! ((?c - 1) div 2))"
          using jgt cb il jl largest_child_parent[of le ns i] by (simp add: nth_swap)
      qed
      have "heap_ok le (bubble_down le (swap ns i ?c) ?c)"
        using "1.IH"[OF has False tp inv'] .
      then show ?thesis using has False by (subst bubble_down.simps) simp
    qed
  qed
qed


lemma kn_le_total_preorder: "total_preorder kn_le"
  by (auto simp: total_preorder_def kn_le_def)

lemma tsp_le_total_preorder: "total_preorder tsp_le"
  by (auto simp: total_preorder_def tsp_le_def)

lemma as_le_total_preorder: "total_preorder as_le"
  by (auto simp: total_preorder_def as_le_def)

lemma heap_push_mset:
  "heap_push le cap ns x = Inr ns' \<Longrightarrow> mset ns' = add_mset x (mset ns)"
  by (auto simp: heap_push_def mset_bubble_up split: if_splits)

lemma heap_push_length:
  "heap_push le cap ns x = Inr ns' \<Longrightarrow> length ns' = Suc (length ns) \<and> length ns < cap"
  by (auto simp: heap_push_def split: if_splits)

lemma heap_push_heap_ok:
  assumes tp: "total_preorder le" and ok: "heap_ok le ns" and push: "heap_push le cap ns x = Inr ns'"
  shows "heap_ok le ns'"
proof -
  have inv: "up_inv le (ns @ [x]) (length ns)"
    unfolding up_inv_def
  proof (intro conjI allI impI)
    fix j assume j: "0 < j \<and> j < length (ns @ [x]) \<and> j \<noteq> length ns"
    then have jl: "j < length ns" by simp
    then have "(j - 1) div 2 < length ns" by simp
    then show "le ((ns @ [x]) ! j) ((ns @ [x]) ! ((j - 1) div 2))"
      using ok j jl by (simp add: heap_ok_def nth_append)
  next
    fix j assume j: "0 < j \<and> j < length (ns @ [x]) \<and> (j - 1) div 2 = length ns \<and> 0 < length ns"
    then have False by (simp, arith)
    then show "le ((ns @ [x]) ! j) ((ns @ [x]) ! ((length ns - 1) div 2))" ..
  qed
  have "heap_ok le (bubble_up le (ns @ [x]) (length ns))"
    by (rule up_inv_heap_ok[OF tp _ inv]) simp
  then show ?thesis using push by (auto simp: heap_push_def split: if_splits)
qed

lemma mset_pop_shape:
  "ns \<noteq> [] \<Longrightarrow> add_mset (ns ! 0) (mset ((butlast ns)[0 := last ns])) = mset ns"
proof (cases ns)
  case Nil
  assume "ns \<noteq> []" with Nil show ?thesis by simp
next
  case (Cons a rest)
  show ?thesis
  proof (cases "rest = []")
    case True
    then show ?thesis using Cons by simp
  next
    case False
    then have "mset (butlast rest) + {#last rest#} = mset rest"
      by (metis append_butlast_last_id mset_append mset_single_iff_right mset.simps(1) mset.simps(2) union_mset_add_mset_right add.right_neutral)
    then show ?thesis using Cons False by simp
  qed
qed

lemma heap_pop_mset:
  "heap_pop le ns = Inr (x, ns') \<Longrightarrow> x = ns ! 0 \<and> mset ns = add_mset x (mset ns')"
  by (auto simp: heap_pop_def mset_bubble_down mset_pop_shape split: if_splits)

lemma heap_pop_length:
  "heap_pop le ns = Inr (x, ns') \<Longrightarrow> Suc (length ns') = length ns"
  by (auto simp: heap_pop_def split: if_splits)

lemma heap_pop_heap_ok:
  assumes tp: "total_preorder le" and ok: "heap_ok le ns" and pop: "heap_pop le ns = Inr (x, ns')"
  shows "heap_ok le ns'"
proof -
  have ne: "ns \<noteq> []" using pop by (auto simp: heap_pop_def split: if_splits)
  let ?ms = "(butlast ns)[0 := last ns]"
  have inv: "down_inv le ?ms 0"
    unfolding down_inv_def
  proof (intro conjI allI impI)
    fix j assume j: "0 < j \<and> j < length ?ms \<and> (j - 1) div 2 \<noteq> 0"
    then have jl: "j < length ns - 1" by simp
    then have pl: "(j - 1) div 2 < length ns - 1" by simp
    have "0 < j \<and> j < length ns" using j jl by arith
    then have "le (ns ! j) (ns ! ((j - 1) div 2))" using ok unfolding heap_ok_def by blast
    then show "le (?ms ! j) (?ms ! ((j - 1) div 2))"
      using j jl pl by (simp add: nth_butlast)
  next
    fix j assume "0 < j \<and> j < length ?ms \<and> (j - 1) div 2 = 0 \<and> (0::nat) < 0"
    then show "le (?ms ! j) (?ms ! ((0 - 1) div 2))" by simp
  qed
  have "heap_ok le (bubble_down le ?ms 0)" by (rule down_inv_heap_ok[OF tp inv])
  then show ?thesis using pop by (auto simp: heap_pop_def split: if_splits)
qed

lemma heap_pop_best:
  assumes tp: "total_preorder le" and ok: "heap_ok le ns" and pop: "heap_pop le ns = Inr (x, ns')"
  shows "\<forall>y \<in> set ns. le y x"
proof
  fix y assume "y \<in> set ns"
  then obtain i where i: "i < length ns" "ns ! i = y" by (auto simp: in_set_conv_nth)
  have "x = ns ! 0" using heap_pop_mset[OF pop] by simp
  then show "le y x" using heap_ok_root_best[OF tp ok i(1)] i(2) by simp
qed

section \<open>The knapsack solver on the instances of \<open>main\<close> and of the specification\<close>

lemma scenario_A_run:
  "solve_knapsack scenario_A 7 =
     Some ([\<lparr>item_weight = 1, item_value = 15, item_index = 0, item_ratio = 15\<rparr>,
            \<lparr>item_weight = 5, item_value = 40, item_index = 3, item_ratio = 8\<rparr>,
            \<lparr>item_weight = 4, item_value = 30, item_index = 2, item_ratio = 15 / 2\<rparr>,
            \<lparr>item_weight = 3, item_value = 20, item_index = 1, item_ratio = 20 / 3\<rparr>],
           Inr \<lparr>kn_queue = [], max_profit = 55,
                 best_solution = [1, 1, 0, 0, 0, 0, 0, 0, 0, 0, 0, 0, 0, 0, 0, 0, 0, 0, 0, 0],
                 nodes_explored = 12, nodes_pruned = 4\<rparr>)"
  by code_simp

text \<open>
  Claim C8.  On scenario A (items A, B, C, D with the indices 0, 1, 2, 3, capacity 7)
  \<open>solve_knapsack\<close> ends, the queue is empty, \<open>max_profit\<close> is 55, and the items that
  \<open>best_solution\<close> selects in the sorted array are exactly the items with the indices 0
  and 3, that is A and D, of total weight 6.
\<close>

theorem scenario_A_optimum:
  "\<exists>its s. solve_knapsack scenario_A 7 = Some (its, Inr s) \<and> kn_queue s = [] \<and>
     max_profit s = 55 \<and>
     map item_index (selected_items its (best_solution s)) = [0, 3] \<and>
     sum_list (map item_weight (selected_items its (best_solution s))) = 6"
  unfolding scenario_A_run by (simp add: selected_items_def)

lemma test_case_1_run:
  "solve_knapsack test_case_1 50 =
     Some (test_case_1,
           Inr \<lparr>kn_queue = [], max_profit = 180,
                 best_solution = [1, 0, 1, 0, 0, 0, 0, 0, 0, 0, 0, 0, 0, 0, 0, 0, 0, 0, 0, 0],
                 nodes_explored = 11, nodes_pruned = 5\<rparr>)"
  by code_simp

lemma test_case_1_brute_force:
  "brute_force_knapsack test_case_1 50 =
     (220, [0, 1, 1, 0, 0, 0, 0, 0, 0, 0, 0, 0, 0, 0, 0, 0, 0, 0, 0, 0])"
  by code_simp

text \<open>
  Claim C1 fails on the code.  On test case 1 of \<open>main\<close> (weights 10, 20, 30, values 60,
  100, 120, capacity 50) the branch-and-bound solver ends with \<open>max_profit = 180\<close>, while
  \<open>brute_force_knapsack\<close> finds 220 (items 1 and 2, of weight exactly 50).
\<close>

theorem test_case_1_not_optimal:
  "(\<exists>its s. solve_knapsack test_case_1 50 = Some (its, Inr s) \<and> max_profit s = 180) \<and>
   fst (brute_force_knapsack test_case_1 50) = 220"
  unfolding test_case_1_run test_case_1_brute_force by simp

text \<open>
  Claim C2 fails on the code.  The node that the search on test case 1 builds by
  excluding item 0 and including items 1 and 2 has weight 50, which does not exceed the
  capacity 50, and profit 220.  The empty completion of it is feasible and has profit
  220, but \<open>calculate_bound\<close> returns 0 for it: the test \<open>node->weight >= capacity\<close>
  returns \<open>0.0\<close> for a node that exactly fills the knapsack.
\<close>

theorem bound_zero_at_full_node:
  "(let T = test_case_1;
        node = include_node T 50 (include_node T 50 (exclude_node T 50 (kn_root T 50)))
    in kn_level node = 3 \<and> kn_weight node = 50 \<and> kn_profit node = 220 \<and>
       feasible_completion T 50 node [] \<and> completion_profit T node [] = 220 \<and>
       calculate_bound T 50 node = 0 \<and> kn_bound node = 0)"
  by (simp add: Let_def test_case_1_def include_node_def exclude_node_def kn_root_def
        calculate_bound_def feasible_completion_def completion_profit_def
        completion_weight_def completion_items_def)

section \<open>The queue returns a best node\<close>


lemma pq_run_heap_ok:
  "total_preorder le \<Longrightarrow> heap_ok le ns \<Longrightarrow> pq_run le cap ns ops = Inr ns' \<Longrightarrow> heap_ok le ns'"
proof (induction ops arbitrary: ns)
  case Nil
  then show ?case by simp
next
  case (Cons op ops)
  show ?case
  proof (cases op)
    case (Push x)
    then obtain ms where ms: "heap_push le cap ns x = Inr ms" "pq_run le cap ms ops = Inr ns'"
      using Cons.prems(3) by (auto split: sum.splits)
    show ?thesis
      using Cons.IH[OF Cons.prems(1) heap_push_heap_ok[OF Cons.prems(1,2) ms(1)] ms(2)] .
  next
    case Pop
    then obtain x ms where ms: "heap_pop le ns = Inr (x, ms)" "pq_run le cap ms ops = Inr ns'"
      using Cons.prems(3) by (auto split: sum.splits)
    show ?thesis
      using Cons.IH[OF Cons.prems(1) heap_pop_heap_ok[OF Cons.prems(1,2) ms(1)] ms(2)] .
  qed
qed

lemma heap_ok_Nil: "heap_ok le []"
  by (simp add: heap_ok_def)

lemma pq_run_pop_best:
  assumes tp: "total_preorder le" and run: "pq_run le cap [] ops = Inr q"
    and pop: "heap_pop le q = Inr (x, q')"
  shows "(\<forall>y \<in> set q. le y x) \<and> mset q = add_mset x (mset q')"
  using heap_pop_best[OF tp pq_run_heap_ok[OF tp heap_ok_Nil run] pop] heap_pop_mset[OF pop]
  by simp

text \<open>
  Claim C4.  Take any sequence of \<open>pq_push\<close> and \<open>pq_pop\<close> calls that starts from the
  empty queue of \<open>pq_init\<close> and in which no call fails (no pop on an empty queue, no
  push on a full array), and let \<open>q\<close> be the queue it leaves.  Then a \<open>pq_pop\<close> on \<open>q\<close>
  returns a node \<open>x\<close> whose bound is best among all nodes stored in \<open>q\<close> (maximal for
  the knapsack queue, minimal for the TSP queue) and removes exactly that node.
\<close>

theorem pq_pop_returns_best:
  "(pq_run kn_le KN_QUEUE_CAP [] kops = Inr kq \<and> pq_pop kq = Inr (kx, kq')
      \<longrightarrow> (\<forall>y \<in> set kq. kn_bound y \<le> kn_bound kx) \<and> mset kq = add_mset kx (mset kq')) \<and>
   (pq_run tsp_le TSP_QUEUE_CAP [] tops = Inr tq \<and> tsp_pq_pop tq = Inr (tx, tq')
      \<longrightarrow> (\<forall>y \<in> set tq. tsp_bound tx \<le> tsp_bound y) \<and> mset tq = add_mset tx (mset tq'))"
  using pq_run_pop_best[OF kn_le_total_preorder, of KN_QUEUE_CAP kops kq kx kq']
        pq_run_pop_best[OF tsp_le_total_preorder, of TSP_QUEUE_CAP tops tq tx tq']
  by (simp add: pq_pop_def tsp_pq_pop_def kn_le_def tsp_le_def)


lemma kn_probe_run:
  "pq_run kn_le KN_QUEUE_CAP [] [Push (kn_probe 3), Push (kn_probe 7), Push (kn_probe 5), Pop, Push (kn_probe 4)]
     = Inr [kn_probe 5, kn_probe 3, kn_probe 4]"
  "pq_pop [kn_probe 5, kn_probe 3, kn_probe 4] = Inr (kn_probe 5, [kn_probe 4, kn_probe 3])"
  by code_simp+

lemma tsp_probe_run:
  "pq_run tsp_le TSP_QUEUE_CAP [] [Push (tsp_probe 3), Push (tsp_probe 7), Push (tsp_probe 5), Pop, Push (tsp_probe 4)]
     = Inr [tsp_probe 4, tsp_probe 7, tsp_probe 5]"
  "tsp_pq_pop [tsp_probe 4, tsp_probe 7, tsp_probe 5] = Inr (tsp_probe 4, [tsp_probe 5, tsp_probe 7])"
  by code_simp+

theorem pq_pop_returns_best_witness:
  "pq_run kn_le KN_QUEUE_CAP [] [Push (kn_probe 3), Push (kn_probe 7), Push (kn_probe 5), Pop, Push (kn_probe 4)]
     = Inr [kn_probe 5, kn_probe 3, kn_probe 4] \<and>
   pq_pop [kn_probe 5, kn_probe 3, kn_probe 4] = Inr (kn_probe 5, [kn_probe 4, kn_probe 3]) \<and>
   list_all (\<lambda>y. kn_bound y \<le> kn_bound (kn_probe 5)) [kn_probe 5, kn_probe 3, kn_probe 4] \<and>
   pq_run tsp_le TSP_QUEUE_CAP [] [Push (tsp_probe 3), Push (tsp_probe 7), Push (tsp_probe 5), Pop, Push (tsp_probe 4)]
     = Inr [tsp_probe 4, tsp_probe 7, tsp_probe 5] \<and>
   tsp_pq_pop [tsp_probe 4, tsp_probe 7, tsp_probe 5] = Inr (tsp_probe 4, [tsp_probe 5, tsp_probe 7]) \<and>
   list_all (\<lambda>y. tsp_bound (tsp_probe 4) \<le> tsp_bound y) [tsp_probe 4, tsp_probe 7, tsp_probe 5]"
  using pq_pop_returns_best[of
      "[Push (kn_probe 3), Push (kn_probe 7), Push (kn_probe 5), Pop, Push (kn_probe 4)]"
      "[kn_probe 5, kn_probe 3, kn_probe 4]" "kn_probe 5" "[kn_probe 4, kn_probe 3]"
      "[Push (tsp_probe 3), Push (tsp_probe 7), Push (tsp_probe 5), Pop, Push (tsp_probe 4)]"
      "[tsp_probe 4, tsp_probe 7, tsp_probe 5]" "tsp_probe 4" "[tsp_probe 5, tsp_probe 7]"]
    kn_probe_run tsp_probe_run
  by (simp add: list_all_iff)

section \<open>The incumbent never gets worse\<close>

lemma kn_offer_max_profit: "kn_offer nd s = Inr s' \<Longrightarrow> max_profit s' = max_profit s"
  by (auto simp: kn_offer_def split: if_splits sum.splits)

lemma kn_branch_max_profit:
  "kn_branch items capacity cur s = Inr s' \<Longrightarrow> max_profit s' = max_profit s"
  by (auto simp: kn_branch_def split: if_splits sum.splits dest!: kn_offer_max_profit)

lemma kn_step_incumbent:
  assumes "kn_step items capacity s = Inr s'"
  shows "max_profit s' = max_profit s \<or>
         (\<exists>cur q. pq_pop (kn_queue s) = Inr (cur, q) \<and> kn_level cur = length items \<and>
                   max_profit s < kn_profit cur \<and> max_profit s' = kn_profit cur)"
  using assms
  by (auto simp: kn_step_def Let_def split: sum.splits prod.splits if_splits
           dest!: kn_branch_max_profit)

lemma kn_reaches_max_profit:
  "kn_reaches items capacity s s' \<Longrightarrow> max_profit s \<le> max_profit s'"
proof (induction rule: kn_reaches.induct)
  case (kn_reaches_refl s)
  show ?case by simp
next
  case (kn_reaches_step s t u)
  from kn_step_incumbent[OF kn_reaches_step.hyps(3)] have "max_profit t \<le> max_profit u" by auto
  with kn_reaches_step.IH show ?case by simp
qed

lemma tsp_offer_best_cost: "tsp_offer nd s = Inr s' \<Longrightarrow> best_cost s' = best_cost s"
  by (auto simp: tsp_offer_def split: if_splits sum.splits)

lemma tsp_branch_best_cost:
  "tsp_branch graph n cur cities s = Inr s' \<Longrightarrow> best_cost s' = best_cost s"
proof (induction cities arbitrary: s)
  case Nil
  then show ?case by simp
next
  case (Cons c cs)
  then show ?case
    by (auto split: if_splits sum.splits dest!: tsp_offer_best_cost)
qed

lemma tsp_step_incumbent:
  assumes "tsp_step graph n s = Inr s'"
  shows "best_cost s' = best_cost s \<or>
         (\<exists>cur q. tsp_pq_pop (tsp_queue s) = Inr (cur, q) \<and> tsp_level cur = n \<and>
                   c_int (tsp_cost cur + graph ! (tsp_path cur ! (n - 1)) ! 0) < best_cost s \<and>
                   best_cost s' = c_int (tsp_cost cur + graph ! (tsp_path cur ! (n - 1)) ! 0))"
  using assms
  by (auto simp: tsp_step_def Let_def split: sum.splits prod.splits if_splits
           dest!: tsp_branch_best_cost)

lemma tsp_reaches_best_cost:
  "tsp_reaches graph n s s' \<Longrightarrow> best_cost s' \<le> best_cost s"
proof (induction rule: tsp_reaches.induct)
  case (tsp_reaches_refl s)
  show ?case by simp
next
  case (tsp_reaches_step s t u)
  from tsp_step_incumbent[OF tsp_reaches_step.hyps(3)] have "best_cost u \<le> best_cost t" by auto
  with tsp_reaches_step.IH show ?case by simp
qed

lemma as_offer_min_cost: "as_offer nd s = Inr s' \<Longrightarrow> min_cost s' = min_cost s"
  by (auto simp: as_offer_def split: if_splits sum.splits)

lemma as_branch_min_cost:
  "as_branch cost_matrix n cur jobs s = Inr s' \<Longrightarrow> min_cost s' = min_cost s"
proof (induction jobs arbitrary: s)
  case Nil
  then show ?case by simp
next
  case (Cons j js)
  then show ?case
    by (auto split: if_splits sum.splits dest!: as_offer_min_cost)
qed

lemma as_step_incumbent:
  assumes "as_step cost_matrix n s = Inr s'"
  shows "min_cost s' = min_cost s \<or>
         (\<exists>cur q. as_pq_pop (as_queue s) = Inr (cur, q) \<and> as_level cur = n \<and>
                   as_cost cur < min_cost s \<and> min_cost s' = as_cost cur)"
  using assms
  by (auto simp: as_step_def Let_def split: sum.splits prod.splits if_splits
           dest!: as_branch_min_cost)

lemma as_reaches_min_cost:
  "as_reaches cost_matrix n s s' \<Longrightarrow> min_cost s' \<le> min_cost s"
proof (induction rule: as_reaches.induct)
  case (as_reaches_refl s)
  show ?case by simp
next
  case (as_reaches_step s t u)
  from as_step_incumbent[OF as_reaches_step.hyps(3)] have "min_cost u \<le> min_cost t" by auto
  with as_reaches_step.IH show ?case by simp
qed


text \<open>
  Claim C7.  Along every run of the three search loops the incumbent value never gets
  worse: \<open>max_profit\<close> never decreases in the knapsack loop, \<open>best_cost\<close> never increases
  in the TSP loop and \<open>min_cost\<close> never increases in the assignment loop.  Moreover an
  iteration changes the incumbent value only when the popped node is terminal
  (\<open>level == n\<close>) and its value is strictly better than the incumbent: the profit of the
  node in the knapsack loop, the cost of the closed tour \<open>cost + graph[path[n-1]][0]\<close>
  (the \<open>int\<close> \<open>total_cost\<close>) in the TSP loop, the cost of the node in the assignment loop.
\<close>

theorem incumbent_monotone:
  "(kn_reaches items capacity k0 k1 \<longrightarrow> max_profit k0 \<le> max_profit k1) \<and>
   (kn_step items capacity ks = Inr ks' \<and> max_profit ks' \<noteq> max_profit ks \<longrightarrow>
      (\<exists>cur q. pq_pop (kn_queue ks) = Inr (cur, q) \<and> kn_level cur = length items \<and>
                max_profit ks < kn_profit cur \<and> max_profit ks' = kn_profit cur)) \<and>
   (tsp_reaches graph n t0 t1 \<longrightarrow> best_cost t1 \<le> best_cost t0) \<and>
   (tsp_step graph n ts = Inr ts' \<and> best_cost ts' \<noteq> best_cost ts \<longrightarrow>
      (\<exists>cur q. tsp_pq_pop (tsp_queue ts) = Inr (cur, q) \<and> tsp_level cur = n \<and>
                c_int (tsp_cost cur + graph ! (tsp_path cur ! (n - 1)) ! 0) < best_cost ts \<and>
                best_cost ts' = c_int (tsp_cost cur + graph ! (tsp_path cur ! (n - 1)) ! 0))) \<and>
   (as_reaches cost_matrix m a0 a1 \<longrightarrow> min_cost a1 \<le> min_cost a0) \<and>
   (as_step cost_matrix m as = Inr as' \<and> min_cost as' \<noteq> min_cost as \<longrightarrow>
      (\<exists>cur q. as_pq_pop (as_queue as) = Inr (cur, q) \<and> as_level cur = m \<and>
                as_cost cur < min_cost as \<and> min_cost as' = as_cost cur))"
  using kn_reaches_max_profit[of items capacity k0 k1]
        kn_step_incumbent[of items capacity ks ks']
        tsp_reaches_best_cost[of graph n t0 t1]
        tsp_step_incumbent[of graph n ts ts']
        as_reaches_min_cost[of cost_matrix m a0 a1]
        as_step_incumbent[of cost_matrix m as as']
  by blast

lemma one_item_run:
  "(case kn_init one_item 2 of
      Inl e \<Rightarrow> False
    | Inr s0 \<Rightarrow>
        (case kn_step one_item 2 s0 of
           Inl e \<Rightarrow> False
         | Inr s1 \<Rightarrow>
             (case kn_step one_item 2 s1 of
                Inl e \<Rightarrow> False
              | Inr s2 \<Rightarrow> kn_queue s0 \<noteq> [] \<and> kn_queue s1 \<noteq> [] \<and>
                          max_profit s0 = 0 \<and> max_profit s1 = 0 \<and> max_profit s2 = 5)))"
  by code_simp

lemma two_cities_run:
  "(case tsp_init two_cities 2 (replicate 20 0) (replicate 21 0) of
      Inl e \<Rightarrow> False
    | Inr s0 \<Rightarrow>
        (case tsp_step two_cities 2 s0 of
           Inl e \<Rightarrow> False
         | Inr s1 \<Rightarrow>
             (case tsp_step two_cities 2 s1 of
                Inl e \<Rightarrow> False
              | Inr s2 \<Rightarrow> tsp_queue s0 \<noteq> [] \<and> tsp_queue s1 \<noteq> [] \<and>
                          best_cost s0 = C_INF \<and> best_cost s1 = C_INF \<and> best_cost s2 = 10)))"
  by code_simp

lemma one_worker_run:
  "(case as_init one_worker 1 (replicate 10 0) (replicate 10 0) (replicate 10 0) of
      Inl e \<Rightarrow> False
    | Inr s0 \<Rightarrow>
        (case as_step one_worker 1 s0 of
           Inl e \<Rightarrow> False
         | Inr s1 \<Rightarrow>
             (case as_step one_worker 1 s1 of
                Inl e \<Rightarrow> False
              | Inr s2 \<Rightarrow> as_queue s0 \<noteq> [] \<and> as_queue s1 \<noteq> [] \<and>
                          min_cost s0 = C_INF \<and> min_cost s1 = C_INF \<and> min_cost s2 = 4)))"
  by code_simp

theorem incumbent_monotone_witness:
  "(\<exists>s0 s1 s2. kn_init one_item 2 = Inr s0 \<and> kn_step one_item 2 s0 = Inr s1 \<and>
      kn_step one_item 2 s1 = Inr s2 \<and> kn_reaches one_item 2 s0 s2 \<and>
      max_profit s0 \<le> max_profit s2 \<and> max_profit s2 \<noteq> max_profit s1 \<and>
      (\<exists>cur q. pq_pop (kn_queue s1) = Inr (cur, q) \<and> kn_level cur = length one_item \<and>
                max_profit s1 < kn_profit cur \<and> max_profit s2 = kn_profit cur)) \<and>
   (\<exists>s0 s1 s2. tsp_init two_cities 2 (replicate 20 0) (replicate 21 0) = Inr s0 \<and>
      tsp_step two_cities 2 s0 = Inr s1 \<and> tsp_step two_cities 2 s1 = Inr s2 \<and>
      tsp_reaches two_cities 2 s0 s2 \<and> best_cost s2 \<le> best_cost s0 \<and>
      best_cost s2 \<noteq> best_cost s1 \<and>
      (\<exists>cur q. tsp_pq_pop (tsp_queue s1) = Inr (cur, q) \<and> tsp_level cur = 2 \<and>
                c_int (tsp_cost cur + two_cities ! (tsp_path cur ! (2 - 1)) ! 0) < best_cost s1 \<and>
                best_cost s2 = c_int (tsp_cost cur + two_cities ! (tsp_path cur ! (2 - 1)) ! 0))) \<and>
   (\<exists>s0 s1 s2. as_init one_worker 1 (replicate 10 0) (replicate 10 0) (replicate 10 0) = Inr s0 \<and>
      as_step one_worker 1 s0 = Inr s1 \<and> as_step one_worker 1 s1 = Inr s2 \<and>
      as_reaches one_worker 1 s0 s2 \<and> min_cost s2 \<le> min_cost s0 \<and>
      min_cost s2 \<noteq> min_cost s1 \<and>
      (\<exists>cur q. as_pq_pop (as_queue s1) = Inr (cur, q) \<and> as_level cur = 1 \<and>
                as_cost cur < min_cost s1 \<and> min_cost s2 = as_cost cur))"
proof (intro conjI)
  from one_item_run obtain s0 s1 s2 where
    k: "kn_init one_item 2 = Inr s0" "kn_step one_item 2 s0 = Inr s1"
       "kn_step one_item 2 s1 = Inr s2" "kn_queue s0 \<noteq> []" "kn_queue s1 \<noteq> []"
       "max_profit s1 = 0" "max_profit s2 = 5"
    by (auto split: sum.splits)
  have r: "kn_reaches one_item 2 s0 s2"
    using kn_reaches_step[OF kn_reaches_step[OF kn_reaches_refl k(4) k(2)] k(5) k(3)] .
  have ne: "max_profit s2 \<noteq> max_profit s1" using k by simp
  show "\<exists>s0 s1 s2. kn_init one_item 2 = Inr s0 \<and> kn_step one_item 2 s0 = Inr s1 \<and>
      kn_step one_item 2 s1 = Inr s2 \<and> kn_reaches one_item 2 s0 s2 \<and>
      max_profit s0 \<le> max_profit s2 \<and> max_profit s2 \<noteq> max_profit s1 \<and>
      (\<exists>cur q. pq_pop (kn_queue s1) = Inr (cur, q) \<and> kn_level cur = length one_item \<and>
                max_profit s1 < kn_profit cur \<and> max_profit s2 = kn_profit cur)"
    using incumbent_monotone[THEN conjunct1, of one_item 2 s0 s2]
          incumbent_monotone[THEN conjunct2, THEN conjunct1, of one_item 2 s1 s2]
          k(1,2,3) r ne by blast
next
  from two_cities_run obtain s0 s1 s2 where
    k: "tsp_init two_cities 2 (replicate 20 0) (replicate 21 0) = Inr s0"
       "tsp_step two_cities 2 s0 = Inr s1" "tsp_step two_cities 2 s1 = Inr s2"
       "tsp_queue s0 \<noteq> []" "tsp_queue s1 \<noteq> []" "best_cost s1 = C_INF" "best_cost s2 = 10"
    by (auto split: sum.splits)
  have r: "tsp_reaches two_cities 2 s0 s2"
    using tsp_reaches_step[OF tsp_reaches_step[OF tsp_reaches_refl k(4) k(2)] k(5) k(3)] .
  have ne: "best_cost s2 \<noteq> best_cost s1" using k by (simp add: C_INF_def)
  show "\<exists>s0 s1 s2. tsp_init two_cities 2 (replicate 20 0) (replicate 21 0) = Inr s0 \<and>
      tsp_step two_cities 2 s0 = Inr s1 \<and> tsp_step two_cities 2 s1 = Inr s2 \<and>
      tsp_reaches two_cities 2 s0 s2 \<and> best_cost s2 \<le> best_cost s0 \<and>
      best_cost s2 \<noteq> best_cost s1 \<and>
      (\<exists>cur q. tsp_pq_pop (tsp_queue s1) = Inr (cur, q) \<and> tsp_level cur = 2 \<and>
                c_int (tsp_cost cur + two_cities ! (tsp_path cur ! (2 - 1)) ! 0) < best_cost s1 \<and>
                best_cost s2 = c_int (tsp_cost cur + two_cities ! (tsp_path cur ! (2 - 1)) ! 0))"
    using incumbent_monotone[THEN conjunct2, THEN conjunct2, THEN conjunct1, of two_cities 2 s0 s2]
          incumbent_monotone[THEN conjunct2, THEN conjunct2, THEN conjunct2, THEN conjunct1,
            of two_cities 2 s1 s2]
          k(1,2,3) r ne by blast
next
  from one_worker_run obtain s0 s1 s2 where
    k: "as_init one_worker 1 (replicate 10 0) (replicate 10 0) (replicate 10 0) = Inr s0"
       "as_step one_worker 1 s0 = Inr s1" "as_step one_worker 1 s1 = Inr s2"
       "as_queue s0 \<noteq> []" "as_queue s1 \<noteq> []" "min_cost s1 = C_INF" "min_cost s2 = 4"
    by (auto split: sum.splits)
  have r: "as_reaches one_worker 1 s0 s2"
    using as_reaches_step[OF as_reaches_step[OF as_reaches_refl k(4) k(2)] k(5) k(3)] .
  have ne: "min_cost s2 \<noteq> min_cost s1" using k by (simp add: C_INF_def)
  show "\<exists>s0 s1 s2. as_init one_worker 1 (replicate 10 0) (replicate 10 0) (replicate 10 0) = Inr s0 \<and>
      as_step one_worker 1 s0 = Inr s1 \<and> as_step one_worker 1 s1 = Inr s2 \<and>
      as_reaches one_worker 1 s0 s2 \<and> min_cost s2 \<le> min_cost s0 \<and>
      min_cost s2 \<noteq> min_cost s1 \<and>
      (\<exists>cur q. as_pq_pop (as_queue s1) = Inr (cur, q) \<and> as_level cur = 1 \<and>
                as_cost cur < min_cost s1 \<and> min_cost s2 = as_cost cur)"
    using incumbent_monotone[THEN conjunct2, THEN conjunct2, THEN conjunct2, THEN conjunct2,
            THEN conjunct1, of one_worker 1 s0 s2]
          incumbent_monotone[THEN conjunct2, THEN conjunct2, THEN conjunct2, THEN conjunct2,
            THEN conjunct2, of one_worker 1 s1 s2]
          k(1,2,3) r ne by blast
qed

section \<open>The accrued cost of a TSP node\<close>

lemma c_int_id: "- 2147483648 \<le> x \<Longrightarrow> x \<le> 2147483647 \<Longrightarrow> c_int x = x"
  by (simp add: c_int_def)

lemma c_int_add_left: "c_int (c_int a + b) = c_int (a + b)"
proof -
  have "(c_int a + b + 2147483648) mod 4294967296 = (a + b + 2147483648) mod 4294967296"
  proof -
    have "c_int a + b + 2147483648 = (a + 2147483648) mod 4294967296 + b"
      by (simp add: c_int_def)
    also have "\<dots> mod 4294967296 = (a + 2147483648 + b) mod 4294967296"
      by (rule mod_add_left_eq)
    finally show ?thesis by (simp add: ac_simps)
  qed
  then show ?thesis by (simp add: c_int_def)
qed

lemma path_cost_snoc:
  "cities \<noteq> [] \<Longrightarrow> path_cost graph (cities @ [c]) = path_cost graph cities + graph ! last cities ! c"
  by (induction graph cities rule: path_cost.induct) auto

lemma last_take: "1 \<le> k \<Longrightarrow> k \<le> length xs \<Longrightarrow> last (take k xs) = xs ! (k - 1)"
proof -
  assume k: "1 \<le> k" "k \<le> length xs"
  then have ne: "take k xs \<noteq> []" by auto
  have "last (take k xs) = take k xs ! (length (take k xs) - 1)" by (rule last_conv_nth[OF ne])
  also have "\<dots> = take k xs ! (k - 1)" using k by (simp add: min_def)
  also have "\<dots> = xs ! (k - 1)" using k by simp
  finally show ?thesis .
qed

lemma tsp_child_fields:
  assumes "tsp_child graph n cur city = Inr nd"
  shows "tsp_level nd = tsp_level cur + 1"
    and "tsp_path nd = (tsp_path cur)[tsp_level cur := city]"
    and "tsp_cost nd = c_int (tsp_cost cur + graph ! (tsp_path cur ! (tsp_level cur - 1)) ! city)"
    and "tsp_visited nd = (tsp_visited cur)[city := 1]"
  using assms by (auto simp: tsp_child_def Let_def split: sum.splits)

lemma tsp_root_fields:
  assumes "tsp_root graph n sp = Inr nd"
  shows "tsp_level nd = 1" and "tsp_path nd = sp[0 := 0]" and "tsp_cost nd = 0"
    and "tsp_visited nd = (replicate MAX_CITIES 0)[0 := 1]"
  using assms by (auto simp: tsp_root_def Let_def split: sum.splits)

lemma tsp_built_invariant:
  assumes len: "length stack_path = MAX_CITIES" and n: "n \<le> MAX_CITIES"
    and built: "tsp_built graph n stack_path nd"
  shows "1 \<le> tsp_level nd \<and> (1 \<le> n \<longrightarrow> tsp_level nd \<le> n) \<and>
         length (tsp_path nd) = MAX_CITIES \<and> tsp_path nd ! 0 = 0 \<and>
         tsp_cost nd = c_int (path_cost graph (take (tsp_level nd) (tsp_path nd)))"
  using built
proof (induction rule: tsp_built.induct)
  case (tsp_built_root nd)
  have "take 1 (stack_path[0 := 0]) = [0]"
    using len by (cases stack_path) (auto simp: MAX_CITIES_def)
  then show ?case
    using len tsp_root_fields[OF tsp_built_root] by (simp add: MAX_CITIES_def c_int_def)
next
  case (tsp_built_child cur city nd)
  let ?l = "tsp_level cur" and ?p = "tsp_path cur"
  note f = tsp_child_fields[OF tsp_built_child.hyps(6)]
  have l: "1 \<le> ?l" "?l < n" "?l < length ?p"
    using tsp_built_child.IH tsp_built_child.hyps n by auto
  have tk: "take (?l + 1) (?p[?l := city]) = take ?l ?p @ [city]"
    using l by (simp add: take_Suc_conv_app_nth)
  have ne: "take ?l ?p \<noteq> []" using l by auto
  have lst: "last (take ?l ?p) = ?p ! (?l - 1)"
    using l last_take[of ?l ?p] by simp
  have "tsp_cost nd = c_int (c_int (path_cost graph (take ?l ?p)) + graph ! (?p ! (?l - 1)) ! city)"
    using f(3) tsp_built_child.IH by simp
  also have "\<dots> = c_int (path_cost graph (take ?l ?p) + graph ! (?p ! (?l - 1)) ! city)"
    by (rule c_int_add_left)
  also have "\<dots> = c_int (path_cost graph (take (tsp_level nd) (tsp_path nd)))"
    using f(1,2) tk path_cost_snoc[OF ne, of graph city] lst by simp
  finally have c: "tsp_cost nd = c_int (path_cost graph (take (tsp_level nd) (tsp_path nd)))" .
  show ?case
    using tsp_built_child.IH l c f(1,2) by simp
qed

lemma tsp_step_terminal:
  assumes "tsp_step graph n s = Inr s'" and "tsp_pq_pop (tsp_queue s) = Inr (cur, q)"
    and "tsp_level cur = n"
  shows "best_cost s' =
           (if best_cost s \<le> tsp_bound cur then best_cost s
            else min (best_cost s) (c_int (tsp_cost cur + graph ! (tsp_path cur ! (n - 1)) ! 0)))"
  using assms by (auto simp: tsp_step_def Let_def split: if_splits)

text \<open>
  Claim C3, amended.  A terminal node of the TSP search (\<open>level == n\<close>) holds in \<open>cost\<close>
  the cost of the open path \<open>path[0..n)\<close>, without the edge back to city 0 (as an \<open>int\<close>:
  the sum reduced to 32 bits, which is the sum itself when it fits).  The value of the
  tour is \<open>cost + graph[path[n-1]][0]\<close>.  When the loop pops a terminal node whose bound
  is below the incumbent, this sum is what it compares with the incumbent and stores in
  \<open>best_cost\<close>; when the bound of the popped terminal node is not below the incumbent, the
  node is pruned and its value is not looked at (even if, as for \<open>detour_terminal\<close>, the
  tour costs less than the incumbent).
\<close>

theorem tsp_terminal_cost:
  assumes "length stack_path = MAX_CITIES" and "1 \<le> n" and "n \<le> MAX_CITIES"
    and "tsp_built graph n stack_path nd" and "tsp_level nd = n"
  shows "tsp_cost nd = c_int (path_cost graph (take n (tsp_path nd))) \<and>
         (- 2147483648 \<le> path_cost graph (take n (tsp_path nd)) \<and>
          path_cost graph (take n (tsp_path nd)) \<le> 2147483647 \<longrightarrow>
            tsp_cost nd = path_cost graph (take n (tsp_path nd))) \<and>
         c_int (tsp_cost nd + graph ! (tsp_path nd ! (n - 1)) ! 0)
           = c_int (tour_cost graph (take n (tsp_path nd))) \<and>
         (\<forall>s s' q. tsp_step graph n s = Inr s' \<and> tsp_pq_pop (tsp_queue s) = Inr (nd, q) \<longrightarrow>
            best_cost s' =
              (if best_cost s \<le> tsp_bound nd then best_cost s
               else min (best_cost s) (c_int (tour_cost graph (take n (tsp_path nd))))))"
proof -
  note inv = tsp_built_invariant[OF assms(1,3,4)]
  have c: "tsp_cost nd = c_int (path_cost graph (take n (tsp_path nd)))" using inv assms(5) by simp
  have ln: "n \<le> length (tsp_path nd)" using inv assms(3) by simp
  have "last (take n (tsp_path nd)) = tsp_path nd ! (n - 1)"
    using assms(2) ln last_take[of n "tsp_path nd"] by simp
  moreover have "hd (take n (tsp_path nd)) = 0"
    using assms(2) ln inv by (cases "tsp_path nd") (auto simp: hd_take)
  ultimately have tc: "tour_cost graph (take n (tsp_path nd))
      = path_cost graph (take n (tsp_path nd)) + graph ! (tsp_path nd ! (n - 1)) ! 0"
    by (simp add: tour_cost_def)
  have t: "c_int (tsp_cost nd + graph ! (tsp_path nd ! (n - 1)) ! 0)
             = c_int (tour_cost graph (take n (tsp_path nd)))"
    unfolding tc c by (rule c_int_add_left)
  have r: "- 2147483648 \<le> path_cost graph (take n (tsp_path nd)) \<and>
          path_cost graph (take n (tsp_path nd)) \<le> 2147483647 \<longrightarrow>
            tsp_cost nd = path_cost graph (take n (tsp_path nd))"
    using c c_int_id by simp
  have st: "\<forall>s s' q. tsp_step graph n s = Inr s' \<and> tsp_pq_pop (tsp_queue s) = Inr (nd, q) \<longrightarrow>
            best_cost s' =
              (if best_cost s \<le> tsp_bound nd then best_cost s
               else min (best_cost s) (c_int (tour_cost graph (take n (tsp_path nd)))))"
  proof (intro allI impI)
    fix s s' q
    assume a: "tsp_step graph n s = Inr s' \<and> tsp_pq_pop (tsp_queue s) = Inr (nd, q)"
    show "best_cost s' =
              (if best_cost s \<le> tsp_bound nd then best_cost s
               else min (best_cost s) (c_int (tour_cost graph (take n (tsp_path nd)))))"
      using tsp_step_terminal[OF a[THEN conjunct1] a[THEN conjunct2] assms(5)] t by simp
  qed
  show ?thesis using c r t st by (intro conjI)
qed

lemma scenario_B_chain:
  "tsp_root scenario_B 4 (replicate 20 0) =
     Inr \<lparr>tsp_path = [0, 0, 0, 0, 0, 0, 0, 0, 0, 0, 0, 0, 0, 0, 0, 0, 0, 0, 0, 0],
          tsp_visited = [1, 0, 0, 0, 0, 0, 0, 0, 0, 0, 0, 0, 0, 0, 0, 0, 0, 0, 0, 0],
          tsp_cost = 0, tsp_bound = 73, tsp_level = 1\<rparr>"
  "tsp_child scenario_B 4
     \<lparr>tsp_path = [0, 0, 0, 0, 0, 0, 0, 0, 0, 0, 0, 0, 0, 0, 0, 0, 0, 0, 0, 0],
      tsp_visited = [1, 0, 0, 0, 0, 0, 0, 0, 0, 0, 0, 0, 0, 0, 0, 0, 0, 0, 0, 0],
      tsp_cost = 0, tsp_bound = 73, tsp_level = 1\<rparr> 1 =
     Inr \<lparr>tsp_path = [0, 1, 0, 0, 0, 0, 0, 0, 0, 0, 0, 0, 0, 0, 0, 0, 0, 0, 0, 0],
          tsp_visited = [1, 1, 0, 0, 0, 0, 0, 0, 0, 0, 0, 0, 0, 0, 0, 0, 0, 0, 0, 0],
          tsp_cost = 10, tsp_bound = 71, tsp_level = 2\<rparr>"
  "tsp_child scenario_B 4
     \<lparr>tsp_path = [0, 1, 0, 0, 0, 0, 0, 0, 0, 0, 0, 0, 0, 0, 0, 0, 0, 0, 0, 0],
      tsp_visited = [1, 1, 0, 0, 0, 0, 0, 0, 0, 0, 0, 0, 0, 0, 0, 0, 0, 0, 0, 0],
      tsp_cost = 10, tsp_bound = 71, tsp_level = 2\<rparr> 3 =
     Inr \<lparr>tsp_path = [0, 1, 3, 0, 0, 0, 0, 0, 0, 0, 0, 0, 0, 0, 0, 0, 0, 0, 0, 0],
          tsp_visited = [1, 1, 0, 1, 0, 0, 0, 0, 0, 0, 0, 0, 0, 0, 0, 0, 0, 0, 0, 0],
          tsp_cost = 35, tsp_bound = 79, tsp_level = 3\<rparr>"
  "tsp_child scenario_B 4
     \<lparr>tsp_path = [0, 1, 3, 0, 0, 0, 0, 0, 0, 0, 0, 0, 0, 0, 0, 0, 0, 0, 0, 0],
      tsp_visited = [1, 1, 0, 1, 0, 0, 0, 0, 0, 0, 0, 0, 0, 0, 0, 0, 0, 0, 0, 0],
      tsp_cost = 35, tsp_bound = 79, tsp_level = 3\<rparr> 2 = Inr scenario_B_terminal"
  by code_simp+

lemma scenario_B_terminal_built: "tsp_built scenario_B 4 (replicate 20 0) scenario_B_terminal"
  by (rule tsp_built_child[OF tsp_built_child[OF tsp_built_child[OF tsp_built_root[OF
        scenario_B_chain(1)] _ _ _ _ scenario_B_chain(2)] _ _ _ _ scenario_B_chain(3)]
        _ _ _ _ scenario_B_chain(4)]) simp_all

lemma scenario_B_terminal_fields:
  "tsp_level scenario_B_terminal = 4" "tsp_cost scenario_B_terminal = 65"
  "take 4 (tsp_path scenario_B_terminal) = [0, 1, 3, 2]"
  "tsp_path scenario_B_terminal ! 3 = 2"
  by (simp_all add: scenario_B_terminal_def)

text \<open>
  Claim C3 as stated fails: the terminal node of scenario B with the path 0, 1, 3, 2 has
  the accrued cost 65, while its tour 0, 1, 3, 2, 0 costs 80.
\<close>

theorem tsp_terminal_cost_counterexample:
  "tsp_built scenario_B 4 (replicate 20 0) scenario_B_terminal \<and>
   tsp_level scenario_B_terminal = 4 \<and>
   tsp_cost scenario_B_terminal = 65 \<and>
   tour_cost scenario_B (take 4 (tsp_path scenario_B_terminal)) = 80 \<and>
   tsp_cost scenario_B_terminal \<noteq> tour_cost scenario_B (take 4 (tsp_path scenario_B_terminal))"
  using scenario_B_terminal_built
  by (simp add: scenario_B_terminal_fields tour_cost_def scenario_B_def)

lemma scenario_B_last_step:
  "tsp_pq_pop (tsp_queue scenario_B_last_state) = Inr (scenario_B_terminal, [])"
  "tsp_step scenario_B 4 scenario_B_last_state =
     Inr \<lparr>tsp_queue = [], best_cost = 80,
          best_path = [0, 1, 3, 2, 0, 0, 0, 0, 0, 0, 0, 0, 0, 0, 0, 0, 0, 0, 0, 0, 0],
          tsp_nodes_explored = 1, tsp_nodes_pruned = 0\<rparr>"
  "\<not> best_cost scenario_B_last_state \<le> tsp_bound scenario_B_terminal"
  by code_simp+

lemma scenario_B_tour: "path_cost scenario_B [0, 1, 3, 2] = 65" "tour_cost scenario_B [0, 1, 3, 2] = 80"
  by (simp_all add: tour_cost_def scenario_B_def)

lemma detour_chain:
  "tsp_root detour_graph 4 (replicate 20 0) =
     Inr \<lparr>tsp_path = [0, 0, 0, 0, 0, 0, 0, 0, 0, 0, 0, 0, 0, 0, 0, 0, 0, 0, 0, 0],
          tsp_visited = [1, 0, 0, 0, 0, 0, 0, 0, 0, 0, 0, 0, 0, 0, 0, 0, 0, 0, 0, 0],
          tsp_cost = 0, tsp_bound = 14, tsp_level = 1\<rparr>"
  "tsp_child detour_graph 4
     \<lparr>tsp_path = [0, 0, 0, 0, 0, 0, 0, 0, 0, 0, 0, 0, 0, 0, 0, 0, 0, 0, 0, 0],
      tsp_visited = [1, 0, 0, 0, 0, 0, 0, 0, 0, 0, 0, 0, 0, 0, 0, 0, 0, 0, 0, 0],
      tsp_cost = 0, tsp_bound = 14, tsp_level = 1\<rparr> 2 =
     Inr \<lparr>tsp_path = [0, 2, 0, 0, 0, 0, 0, 0, 0, 0, 0, 0, 0, 0, 0, 0, 0, 0, 0, 0],
          tsp_visited = [1, 0, 1, 0, 0, 0, 0, 0, 0, 0, 0, 0, 0, 0, 0, 0, 0, 0, 0, 0],
          tsp_cost = 1, tsp_bound = 12, tsp_level = 2\<rparr>"
  "tsp_child detour_graph 4
     \<lparr>tsp_path = [0, 2, 0, 0, 0, 0, 0, 0, 0, 0, 0, 0, 0, 0, 0, 0, 0, 0, 0, 0],
      tsp_visited = [1, 0, 1, 0, 0, 0, 0, 0, 0, 0, 0, 0, 0, 0, 0, 0, 0, 0, 0, 0],
      tsp_cost = 1, tsp_bound = 12, tsp_level = 2\<rparr> 1 =
     Inr \<lparr>tsp_path = [0, 2, 1, 0, 0, 0, 0, 0, 0, 0, 0, 0, 0, 0, 0, 0, 0, 0, 0, 0],
          tsp_visited = [1, 1, 1, 0, 0, 0, 0, 0, 0, 0, 0, 0, 0, 0, 0, 0, 0, 0, 0, 0],
          tsp_cost = 6, tsp_bound = 14, tsp_level = 3\<rparr>"
  "tsp_child detour_graph 4
     \<lparr>tsp_path = [0, 2, 1, 0, 0, 0, 0, 0, 0, 0, 0, 0, 0, 0, 0, 0, 0, 0, 0, 0],
      tsp_visited = [1, 1, 1, 0, 0, 0, 0, 0, 0, 0, 0, 0, 0, 0, 0, 0, 0, 0, 0, 0],
      tsp_cost = 6, tsp_bound = 14, tsp_level = 3\<rparr> 3 = Inr detour_terminal"
  by code_simp+

lemma detour_terminal_built: "tsp_built detour_graph 4 (replicate 20 0) detour_terminal"
  by (rule tsp_built_child[OF tsp_built_child[OF tsp_built_child[OF tsp_built_root[OF
        detour_chain(1)] _ _ _ _ detour_chain(2)] _ _ _ _ detour_chain(3)]
        _ _ _ _ detour_chain(4)]) simp_all

lemma detour_terminal_fields:
  "tsp_level detour_terminal = 4" "take 4 (tsp_path detour_terminal) = [0, 2, 1, 3]"
  "tsp_bound detour_terminal = 17"
  by (simp_all add: detour_terminal_def)

lemma detour_step:
  "tsp_pq_pop (tsp_queue detour_state) = Inr (detour_terminal, [])"
  "tsp_step detour_graph 4 detour_state =
     Inr \<lparr>tsp_queue = [], best_cost = 17,
          best_path = [0, 3, 2, 1, 0, 0, 0, 0, 0, 0, 0, 0, 0, 0, 0, 0, 0, 0, 0, 0, 0],
          tsp_nodes_explored = 1, tsp_nodes_pruned = 1\<rparr>"
  "best_cost detour_state \<le> tsp_bound detour_terminal"
  by code_simp+

lemma detour_tour: "tour_cost detour_graph [0, 2, 1, 3] = 15"
  by (simp add: tour_cost_def detour_graph_def)

theorem tsp_terminal_cost_witness:
  "length (replicate 20 (0::nat)) = MAX_CITIES \<and> (1::nat) \<le> 4 \<and> 4 \<le> MAX_CITIES \<and>
   tsp_built scenario_B 4 (replicate 20 0) scenario_B_terminal \<and>
   tsp_level scenario_B_terminal = 4 \<and>
   tsp_cost scenario_B_terminal = c_int (path_cost scenario_B [0, 1, 3, 2]) \<and>
   - 2147483648 \<le> path_cost scenario_B [0, 1, 3, 2] \<and>
   path_cost scenario_B [0, 1, 3, 2] \<le> 2147483647 \<and>
   tsp_cost scenario_B_terminal = path_cost scenario_B [0, 1, 3, 2] \<and>
   c_int (tsp_cost scenario_B_terminal + scenario_B ! 2 ! 0) = c_int (tour_cost scenario_B [0, 1, 3, 2]) \<and>
   (\<exists>s'. tsp_step scenario_B 4 scenario_B_last_state = Inr s' \<and>
         tsp_pq_pop (tsp_queue scenario_B_last_state) = Inr (scenario_B_terminal, []) \<and>
         \<not> best_cost scenario_B_last_state \<le> tsp_bound scenario_B_terminal \<and>
         best_cost s' = min (best_cost scenario_B_last_state)
                            (c_int (tour_cost scenario_B [0, 1, 3, 2])) \<and>
         best_cost s' = 80) \<and>
   tsp_built detour_graph 4 (replicate 20 0) detour_terminal \<and>
   tsp_level detour_terminal = 4 \<and>
   (\<exists>s'. tsp_step detour_graph 4 detour_state = Inr s' \<and>
         tsp_pq_pop (tsp_queue detour_state) = Inr (detour_terminal, []) \<and>
         best_cost detour_state \<le> tsp_bound detour_terminal \<and>
         tour_cost detour_graph [0, 2, 1, 3] = 15 \<and> best_cost detour_state = 17 \<and>
         best_cost s' = best_cost detour_state)"
proof -
  have h: "length (replicate 20 (0::nat)) = MAX_CITIES" "(1::nat) \<le> 4" "4 \<le> MAX_CITIES"
    by (simp_all add: MAX_CITIES_def)
  note t = tsp_terminal_cost[OF h scenario_B_terminal_built scenario_B_terminal_fields(1)]
  define s' where "s' = \<lparr>tsp_queue = [], best_cost = 80,
          best_path = [0, 1, 3, 2, 0, 0, 0, 0, 0, 0, 0, 0, 0, 0, 0, 0, 0, 0, 0, 0, 0],
          tsp_nodes_explored = 1, tsp_nodes_pruned = 0\<rparr>"
  have st: "tsp_step scenario_B 4 scenario_B_last_state = Inr s'"
    unfolding s'_def by (rule scenario_B_last_step(2))
  have rg: "- 2147483648 \<le> path_cost scenario_B [0, 1, 3, 2]"
    "path_cost scenario_B [0, 1, 3, 2] \<le> 2147483647"
    unfolding scenario_B_tour by simp_all
  have c1: "tsp_cost scenario_B_terminal = c_int (path_cost scenario_B [0, 1, 3, 2])"
    using t[THEN conjunct1] scenario_B_terminal_fields(3) by simp
  have c2: "tsp_cost scenario_B_terminal = path_cost scenario_B [0, 1, 3, 2]"
    using t[THEN conjunct2, THEN conjunct1] scenario_B_terminal_fields(3) rg by simp
  have c3: "c_int (tsp_cost scenario_B_terminal + scenario_B ! 2 ! 0)
              = c_int (tour_cost scenario_B [0, 1, 3, 2])"
    using t[THEN conjunct2, THEN conjunct2, THEN conjunct1] scenario_B_terminal_fields(3,4) by simp
  have "best_cost s' =
          (if best_cost scenario_B_last_state \<le> tsp_bound scenario_B_terminal
           then best_cost scenario_B_last_state
           else min (best_cost scenario_B_last_state)
                    (c_int (tour_cost scenario_B (take 4 (tsp_path scenario_B_terminal)))))"
    using t[THEN conjunct2, THEN conjunct2, THEN conjunct2] st scenario_B_last_step(1) by blast
  then have c4: "best_cost s' = min (best_cost scenario_B_last_state)
                                    (c_int (tour_cost scenario_B [0, 1, 3, 2]))"
    using scenario_B_terminal_fields(3) scenario_B_last_step(3) by simp
  have c5: "best_cost s' = 80" by (simp add: s'_def)
  have big: "tsp_step scenario_B 4 scenario_B_last_state = Inr s' \<and>
         tsp_pq_pop (tsp_queue scenario_B_last_state) = Inr (scenario_B_terminal, []) \<and>
         \<not> best_cost scenario_B_last_state \<le> tsp_bound scenario_B_terminal \<and>
         best_cost s' = min (best_cost scenario_B_last_state)
                            (c_int (tour_cost scenario_B [0, 1, 3, 2])) \<and>
         best_cost s' = 80"
    by (intro conjI st scenario_B_last_step(1) scenario_B_last_step(3) c4 c5)
  note u = tsp_terminal_cost[OF h detour_terminal_built detour_terminal_fields(1)]
  define t' where "t' = \<lparr>tsp_queue = [], best_cost = 17,
          best_path = [0, 3, 2, 1, 0, 0, 0, 0, 0, 0, 0, 0, 0, 0, 0, 0, 0, 0, 0, 0, 0],
          tsp_nodes_explored = 1, tsp_nodes_pruned = 1\<rparr>"
  have dt: "tsp_step detour_graph 4 detour_state = Inr t'"
    unfolding t'_def by (rule detour_step(2))
  have "best_cost t' =
          (if best_cost detour_state \<le> tsp_bound detour_terminal
           then best_cost detour_state
           else min (best_cost detour_state)
                    (c_int (tour_cost detour_graph (take 4 (tsp_path detour_terminal)))))"
    using u[THEN conjunct2, THEN conjunct2, THEN conjunct2] dt detour_step(1) by blast
  then have d1: "best_cost t' = best_cost detour_state"
    using detour_step(3) by simp
  have d2: "best_cost detour_state = 17" by (simp add: detour_state_def)
  have big2: "tsp_step detour_graph 4 detour_state = Inr t' \<and>
         tsp_pq_pop (tsp_queue detour_state) = Inr (detour_terminal, []) \<and>
         best_cost detour_state \<le> tsp_bound detour_terminal \<and>
         tour_cost detour_graph [0, 2, 1, 3] = 15 \<and> best_cost detour_state = 17 \<and>
         best_cost t' = best_cost detour_state"
    by (intro conjI dt detour_step(1) detour_step(3) detour_tour d2 d1)
  show ?thesis
    by (intro conjI h scenario_B_terminal_built scenario_B_terminal_fields(1) c1 rg c2 c3
          exI[of _ s'] big detour_terminal_built detour_terminal_fields(1) exI[of _ t'] big2)
qed

section \<open>Properties of the double precision arithmetic\<close>

lemma pow2_powr: "pow2 e = 2 powr (of_int e)"
proof (cases "0 \<le> e")
  case True
  then show ?thesis by (simp add: pow2_def powr_realpow[symmetric])
next
  case False
  have "(2::real) powr (of_int e) = 2 powr (- of_int (- e))" by simp
  also have "\<dots> = 1 / 2 powr (of_int (- e))" by (rule powr_minus_divide)
  also have "\<dots> = 1 / 2 ^ nat (- e)" using False by (simp add: powr_realpow[symmetric])
  finally show ?thesis using False by (simp add: pow2_def)
qed

lemma pow2_pos [simp]: "0 < pow2 e"
  by (simp add: pow2_powr)

lemma pow2_nonneg [simp]: "0 \<le> pow2 e"
  using pow2_pos[of e] by linarith

lemma pow2_ne0 [simp]: "pow2 e \<noteq> 0"
  using pow2_pos[of e] by linarith

lemma pow2_abs [simp]: "\<bar>pow2 e\<bar> = pow2 e"
  by simp

lemma pow2_add: "pow2 (a + b) = pow2 a * pow2 b"
  by (simp add: pow2_powr powr_add)

lemma pow2_mono: "a \<le> b \<Longrightarrow> pow2 a \<le> pow2 b"
  by (simp add: pow2_powr)

lemma pow2_less_iff: "pow2 a < pow2 b \<longleftrightarrow> a < b"
  by (simp add: pow2_powr)



lemma pow2_53: "pow2 (53 + j) = 2 ^ 53 * pow2 j"
  by (simp only: pow2_add) (simp add: pow2_def)

lemma pow2_int_multiple: "0 \<le> e \<Longrightarrow> pow2 e = of_int (2 ^ nat e)"
  by (simp add: pow2_def)

lemma dbl_exponent_bounds:
  assumes "x \<noteq> 0"
  shows "pow2 (dbl_exponent x) \<le> \<bar>x\<bar> \<and> \<bar>x\<bar> < pow2 (dbl_exponent x + 1)"
proof (cases "1 \<le> \<bar>x\<bar>")
  case True
  let ?f = "\<lfloor>\<bar>x\<bar>\<rfloor>"
  have f: "0 < ?f" using True by simp
  note b = bitlen_bounds[OF f]
  have bl: "1 \<le> bitlen ?f" using f by (simp add: bitlen_alt_def)
  have e: "dbl_exponent x = bitlen ?f - 1" using True by (simp add: dbl_exponent_def)
  have "pow2 (bitlen ?f - 1) = of_int (2 ^ nat (bitlen ?f - 1))"
    using bl by (simp add: pow2_def)
  also have "\<dots> \<le> of_int ?f" using b by (metis of_int_le_iff)
  also have "\<dots> \<le> \<bar>x\<bar>" by simp
  finally have lo: "pow2 (dbl_exponent x) \<le> \<bar>x\<bar>" using e by simp
  have "?f + 1 \<le> 2 ^ nat (bitlen ?f)" using b by simp
  then have "of_int (?f + 1) \<le> (of_int (2 ^ nat (bitlen ?f)) :: real)" by (metis of_int_le_iff)
  moreover have "\<bar>x\<bar> < of_int (?f + 1)" by linarith
  ultimately have "\<bar>x\<bar> < of_int (2 ^ nat (bitlen ?f))" by linarith
  also have "\<dots> = pow2 (bitlen ?f)" using bl by (simp add: pow2_def)
  finally have hi: "\<bar>x\<bar> < pow2 (dbl_exponent x + 1)" using e by simp
  show ?thesis using lo hi by simp
next
  case False
  define y where "y = 1 / \<bar>x\<bar>"
  have x: "0 < \<bar>x\<bar>" "\<bar>x\<bar> < 1" using assms False by simp_all
  have y1: "1 < y" using x by (simp add: y_def)
  let ?N = "\<lceil>y\<rceil> - 1"
  have N: "0 < ?N" using y1 by linarith
  note b = bitlen_bounds[OF N]
  define k where "k = bitlen ?N"
  have k1: "1 \<le> k" using N by (simp add: k_def bitlen_alt_def)
  have e: "dbl_exponent x = - k" using False by (simp add: dbl_exponent_def k_def y_def)
  have "\<lceil>y\<rceil> \<le> 2 ^ nat k" using b by (simp add: k_def)
  then have "of_int \<lceil>y\<rceil> \<le> (of_int (2 ^ nat k) :: real)" by (metis of_int_le_iff)
  then have yk: "y \<le> 2 ^ nat k" by (simp add: ceiling_le_iff)
  have "(2::real) ^ nat (k - 1) = of_int (2 ^ nat (k - 1))" by simp
  also have "\<dots> \<le> of_int ?N" using b unfolding k_def by (metis of_int_le_iff)
  also have "\<dots> < y" by linarith
  finally have ky: "2 ^ nat (k - 1) < y" .
  have "pow2 (- k) = 1 / 2 ^ nat k" using k1 by (simp add: pow2_def)
  also have "\<dots> \<le> 1 / y" using yk y1 by (simp add: frac_le)
  also have "\<dots> = \<bar>x\<bar>" by (simp add: y_def)
  finally have lo: "pow2 (dbl_exponent x) \<le> \<bar>x\<bar>" using e by simp
  have "\<bar>x\<bar> = 1 / y" by (simp add: y_def)
  also have "\<dots> < 1 / 2 ^ nat (k - 1)" using ky by (simp add: frac_less2)
  also have "\<dots> = pow2 (- k + 1)"
  proof (cases "k = 1")
    case True
    then show ?thesis by (simp add: pow2_def)
  next
    case False
    then have "- k + 1 < 0" using k1 by simp
    moreover have "nat (- (- k + 1)) = nat (k - 1)" by simp
    ultimately show ?thesis by (simp add: pow2_def)
  qed
  finally have hi: "\<bar>x\<bar> < pow2 (dbl_exponent x + 1)" using e by simp
  show ?thesis using lo hi by simp
qed



lemma round_even_int [simp]: "round_even (of_int k) = k"
  by (simp add: round_even_def)




lemma dbl_round_exact:
  assumes k: "\<bar>k\<bar> < 2 ^ 53" and j: "- 1074 \<le> j"
  shows "dbl_round (of_int k * pow2 j) = of_int k * pow2 j"
proof (cases "k = 0")
  case True
  then show ?thesis by (simp add: dbl_round_def)
next
  case False
  define x where "x = of_int k * pow2 j"
  have "pow2 j \<noteq> 0" using pow2_pos[of j] by linarith
  then have x0: "x \<noteq> 0" using False by (simp add: x_def)
  define e where "e = max (dbl_exponent x) (- 1022)"
  define u where "u = pow2 (e - 52)"
  have u: "0 < u" by (simp add: u_def)
  have "\<bar>x\<bar> = of_int \<bar>k\<bar> * pow2 j" by (simp add: x_def abs_mult)
  also have "\<dots> < of_int (2 ^ 53) * pow2 j" using k by (simp add: mult_strict_right_mono)
  also have "\<dots> = pow2 (53 + j)" by (simp add: pow2_53)
  finally have "pow2 (dbl_exponent x) < pow2 (53 + j)"
    using dbl_exponent_bounds[OF x0] by linarith
  then have "dbl_exponent x < 53 + j" by (simp add: pow2_less_iff)
  then have ej: "e - 52 \<le> j" using j by (simp add: e_def)
  define d where "d = j - (e - 52)"
  have d: "0 \<le> d" using ej by (simp add: d_def)
  have "pow2 j = pow2 (d + (e - 52))" by (simp add: d_def)
  also have "\<dots> = pow2 d * u" by (simp add: pow2_add u_def)
  also have "\<dots> = of_int (2 ^ nat d) * u" using d by (simp add: pow2_def)
  finally have pj: "pow2 j = of_int (2 ^ nat d) * u" .
  have "x / u = of_int (k * 2 ^ nat d)" using u by (simp add: x_def pj)
  then have "round_even (x / u) = k * 2 ^ nat d" by (metis round_even_int)
  then have "of_int (round_even (x / u)) * u = x" by (simp add: x_def pj)
  then show ?thesis using x0 by (simp add: dbl_round_def Let_def u_def e_def x_def)
qed



lemma DBL_MAX_gt_pow2: "k \<le> 1023 \<Longrightarrow> 2 ^ k < DBL_MAX"
proof -
  assume k: "k \<le> 1023"
  have "(2::real) ^ k \<le> 2 ^ 1023" using k by (intro power_increasing) simp_all
  also have "\<dots> = 1 * 2 ^ 1023" by (rule mult_1[symmetric])
  also have "\<dots> < (2 - 1 / 2 ^ 52) * 2 ^ 1023"
  proof (rule mult_strict_right_mono)
    show "(1::real) < 2 - 1 / 2 ^ 52" by simp
    show "(0::real) < 2 ^ 1023" by (rule zero_less_power) simp
  qed
  finally show ?thesis unfolding DBL_MAX_def .
qed

lemma DBL_MAX_large: "1000000 < DBL_MAX"
proof -
  have "(1000000::real) < 2 ^ 20" by simp
  also have "\<dots> < DBL_MAX" by (rule DBL_MAX_gt_pow2) simp
  finally show ?thesis .
qed









lemma to_double_finite:
  assumes "dbl_round x = x" and "\<bar>x\<bar> \<le> DBL_MAX"
  shows "to_double x = Dbl x"
  using assms by (auto simp: to_double_def Let_def)

lemma to_double_0 [simp]: "to_double 0 = Dbl 0"
  using DBL_MAX_large by (simp add: to_double_def dbl_round_def)



lemma DBL_MAX_half: "DBL_MAX / 2 = of_int (2 ^ 53 - 1) * pow2 970"
proof -
  have "pow2 970 = 2 ^ 970" by (simp add: pow2_def)
  moreover have "(2::real) ^ 1023 = 2 ^ 53 * 2 ^ 970" by (simp add: power_add[symmetric])
  moreover have "(2 - 1 / 2 ^ 52) * (2 ^ 53 * 2 ^ 970) / 2 = (2 ^ 53 - 1) * (2::real) ^ 970"
    by (simp add: field_simps)
  ultimately show ?thesis by (simp add: DBL_MAX_def)
qed

lemma DBL_MAX_repr: "DBL_MAX = of_int (2 ^ 53 - 1) * pow2 971"
proof -
  have "pow2 971 = 2 * pow2 970" by (simp add: pow2_def)
  then show ?thesis using DBL_MAX_half by simp
qed

lemma DBL_MAX_pos: "0 < DBL_MAX"
  using DBL_MAX_large by simp

lemma to_double_DBL_MAX [simp]: "to_double DBL_MAX = Dbl DBL_MAX"
proof (rule to_double_finite)
  show "dbl_round DBL_MAX = DBL_MAX"
    unfolding DBL_MAX_repr by (rule dbl_round_exact) simp_all
  show "\<bar>DBL_MAX\<bar> \<le> DBL_MAX" using DBL_MAX_pos by simp
qed

lemma to_double_half [simp]: "to_double (DBL_MAX / 2) = Dbl (DBL_MAX / 2)"
proof (rule to_double_finite)
  show "dbl_round (DBL_MAX / 2) = DBL_MAX / 2"
    unfolding DBL_MAX_half by (rule dbl_round_exact) simp_all
  show "\<bar>DBL_MAX / 2\<bar> \<le> DBL_MAX" using DBL_MAX_pos by simp
qed




section \<open>The greedy heuristic of the facility program\<close>







lemma greedy_ensure_step_length:
  "length (g_open (if g_served s ! j = 0 then
             (case cheapest_facility P j of
                (cheapest_cost, cheapest) \<Rightarrow>
                  if cheapest \<noteq> -1 \<and> g_open s ! nat cheapest = 0
                  then s\<lparr>g_open := (g_open s)[nat cheapest := 1],
                         g_total := dbl_add (g_total s) (facility_costs P ! nat cheapest)\<rparr>
                  else s)
           else s)) = length (g_open s)"
  by (auto split: prod.splits)


lemma greedy_ensure_length: "length (g_open (greedy_ensure P st)) = length (g_open st)"
  unfolding greedy_ensure_def
  by (rule fold_invariant[where Q = "\<lambda>_. True" and P = "\<lambda>s. length (g_open s) = length (g_open st)"])
     (simp_all add: greedy_ensure_step_length)








lemma upt_2: "[0 ..< 2] = [0, 1]"
  by (simp add: upt_rec)

lemma replicate_10: "replicate 10 (0::int) = [0, 0, 0, 0, 0, 0, 0, 0, 0, 0]"
  by code_simp

lemma replicate_15: "replicate 15 (0::int) = [0, 0, 0, 0, 0, 0, 0, 0, 0, 0, 0, 0, 0, 0, 0]"
  by code_simp






text \<open>The same two facilities without customers.\<close>

lemma no_customers_greedy:
  "fl_incumbent_init (two_facilities\<lparr>num_customers := 0\<rparr>) blank_node blank_solution old_best
     = Some (Inr (old_best, Dbl DBL_MAX))"
proof -
  let ?P = "two_facilities\<lparr>num_customers := 0\<rparr>"
  let ?st0 = "\<lparr>g_open = [0, 0, 0, 0, 0, 0, 0, 0, 0, 0],
               g_served = [0, 0, 0, 0, 0, 0, 0, 0, 0, 0, 0, 0, 0, 0, 0], g_total = Dbl 0\<rparr>"
  have s: "greedy_select ?P ?st0 = (Dbl 0, -1)"
    by (simp add: greedy_select_def calculate_improvement_def two_facilities_def upt_2 Let_def)
  have l: "greedy_loop ?P ?st0 = Some ?st0"
    by (subst greedy_loop.simps) (simp add: s)
  have e: "greedy_ensure ?P ?st0 = ?st0" by (simp add: greedy_ensure_def two_facilities_def)
  have n: "greedy_node ?P ?st0 blank_node
           = \<lparr>fn_level = 2, fn_facility_open = [0, 0, 0, 0, 0, 0, 0, 0, 0, 0],
              fn_fixed_cost = Dbl 0, fn_service_cost = Dbl 0, fn_total_cost = Dbl 0,
              fn_bound = Dbl 0\<rparr>"
    by (simp add: greedy_node_def two_facilities_def blank_node_def upt_2 MAX_FACILITIES_def
         replicate_10)
  have c: "fs_total_cost (construct_solution ?P
             \<lparr>fn_level = 2, fn_facility_open = [0, 0, 0, 0, 0, 0, 0, 0, 0, 0],
              fn_fixed_cost = Dbl 0, fn_service_cost = Dbl 0, fn_total_cost = Dbl 0,
              fn_bound = Dbl 0\<rparr> blank_solution)
             = Dbl DBL_MAX"
    by (simp add: construct_solution_def copy_open_def two_facilities_def upt_2)
  have h: "greedy_heuristic ?P blank_node blank_solution
             = Some (Inr (construct_solution ?P
             \<lparr>fn_level = 2, fn_facility_open = [0, 0, 0, 0, 0, 0, 0, 0, 0, 0],
              fn_fixed_cost = Dbl 0, fn_service_cost = Dbl 0, fn_total_cost = Dbl 0,
              fn_bound = Dbl 0\<rparr> blank_solution))"
    unfolding greedy_heuristic_def MAX_FACILITIES_def MAX_CUSTOMERS_def replicate_10 replicate_15
    using l e n by (simp add: two_facilities_def)
  show ?thesis
    unfolding fl_incumbent_init_def h using c by (simp add: dbl_ne_def)
qed


section \<open>The incumbent at the start of the assignment and facility searches\<close>







section \<open>Sorting, and what the solution vector refers to\<close>



























section \<open>Two runs of \<open>solve_tsp\<close> on the same instance\<close>


section \<open>The queue of the knapsack search overflows\<close>

lemma bound_loop_uniform:
  "\<forall>it \<in> set xs. item_weight it = 2 \<and> item_value it = 2 \<and> item_ratio it = 1 \<Longrightarrow> 0 \<le> rc \<Longrightarrow>
   bound_loop xs b rc =
     (if 2 * int (length xs) \<le> rc then b + 2 * real (length xs) else b + real_of_int rc)"
proof (induction xs arbitrary: b rc)
  case Nil
  then show ?case by simp
next
  case (Cons it its)
  have it: "item_weight it = 2" "item_value it = 2" "item_ratio it = 1"
    using Cons.prems(1) by auto
  have its: "\<forall>it \<in> set its. item_weight it = 2 \<and> item_value it = 2 \<and> item_ratio it = 1"
    using Cons.prems(1) by auto
  show ?case
  proof (cases "2 \<le> rc")
    case True
    then have "bound_loop (it # its) b rc = bound_loop its (b + 2) (rc - 2)"
      using it by simp
    also have "\<dots> = (if 2 * int (length its) \<le> rc - 2 then b + 2 + 2 * real (length its)
                      else b + 2 + real_of_int (rc - 2))"
      using Cons.IH[OF its, of "rc - 2" "b + 2"] True by simp
    finally show ?thesis by simp
  next
    case False
    then have "bound_loop (it # its) b rc = b + real_of_int rc" using it by simp
    then show ?thesis using False by simp
  qed
qed

lemma calculate_bound_uniform:
  assumes len: "length items = 20"
    and items: "\<forall>it \<in> set items. item_weight it = 2 \<and> item_value it = 2 \<and> item_ratio it = 1"
    and je: "j \<le> 10" "e \<le> 10"
    and c: "kn_level nd = j + e" "kn_profit nd = 2 * int j" "kn_weight nd = 2 * int j"
  shows "calculate_bound items 21 nd = (if e \<le> 9 then 21 else 20)"
proof -
  have d: "\<forall>it \<in> set (drop (j + e) items). item_weight it = 2 \<and> item_value it = 2 \<and> item_ratio it = 1"
    using items by (meson in_set_dropD)
  have l: "int (length (drop (j + e) items)) = 20 - int j - int e" using len je by simp
  have rc: "(0::int) \<le> 21 - 2 * int j" using je by simp
  have "calculate_bound items 21 nd =
          bound_loop (drop (j + e) items) (real_of_int (2 * int j)) (21 - 2 * int j)"
    using je c by (simp add: calculate_bound_def)
  also have "\<dots> = (if 2 * int (length (drop (j + e) items)) \<le> 21 - 2 * int j
                    then real_of_int (2 * int j) + 2 * real (length (drop (j + e) items))
                    else real_of_int (2 * int j) + real_of_int (21 - 2 * int j))"
    by (rule bound_loop_uniform[OF d rc])
  also have "\<dots> = (if e \<le> 9 then 21 else 20)"
  proof (cases "e \<le> 9")
    case True
    then have "\<not> 2 * int (length (drop (j + e) items)) \<le> 21 - 2 * int j" unfolding l by simp
    then show ?thesis using True by simp
  next
    case False
    then have e10: "e = 10" using je by simp
    then have le: "2 * int (length (drop (j + e) items)) \<le> 21 - 2 * int j" unfolding l by simp
    have "real_of_int (int (length (drop (j + e) items))) = real_of_int (10 - int j)"
      using l e10 by simp
    then have "real (length (drop (j + e) items)) = 10 - real j" by simp
    then show ?thesis using False le by simp
  qed
  finally show ?thesis .
qed


lemma canon_include:
  assumes len: "length items = 20"
    and items: "\<forall>it \<in> set items. item_weight it = 2 \<and> item_value it = 2 \<and> item_ratio it = 1"
    and c: "canon_at j e cur" and e: "e \<le> 9" and j: "j \<le> 9"
  shows "canon_at (j + 1) e (include_node items 21 cur)"
proof -
  let ?nd = "cur\<lparr>kn_level := kn_level cur + 1,
                   kn_profit := kn_profit cur + item_value (items ! kn_level cur),
                   kn_weight := kn_weight cur + item_weight (items ! kn_level cur),
                   kn_included := (kn_included cur)[kn_level cur := 1]\<rparr>"
  have lv: "kn_level cur = j + e" "kn_profit cur = 2 * int j" "kn_weight cur = 2 * int j"
    using c by (auto simp: canon_at_def)
  have "items ! kn_level cur \<in> set items" using lv len e j by simp
  then have it: "item_value (items ! kn_level cur) = 2" "item_weight (items ! kn_level cur) = 2"
    using items by auto
  have f: "kn_level ?nd = (j + 1) + e" "kn_profit ?nd = 2 * int (j + 1)"
    "kn_weight ?nd = 2 * int (j + 1)"
    using lv it by simp_all
  have b: "calculate_bound items 21 ?nd = (if e \<le> 9 then 21 else 20)"
    by (rule calculate_bound_uniform[OF len items _ _ f]) (use e j in simp_all)
  show ?thesis
    using f b e j by (simp add: canon_at_def include_node_def Let_def)
qed

lemma canon_exclude:
  assumes len: "length items = 20"
    and items: "\<forall>it \<in> set items. item_weight it = 2 \<and> item_value it = 2 \<and> item_ratio it = 1"
    and c: "canon_at j e cur" and e: "e \<le> 9"
  shows "canon_at j (e + 1) (exclude_node items 21 cur)"
proof -
  let ?nd = "cur\<lparr>kn_level := kn_level cur + 1\<rparr>"
  have lv: "kn_level cur = j + e" "kn_profit cur = 2 * int j" "kn_weight cur = 2 * int j" "j \<le> 10"
    using c by (auto simp: canon_at_def)
  have f: "kn_level ?nd = j + (e + 1)" "kn_profit ?nd = 2 * int j" "kn_weight ?nd = 2 * int j"
    using lv by simp_all
  have b: "calculate_bound items 21 ?nd = (if e + 1 \<le> 9 then 21 else 20)"
    by (rule calculate_bound_uniform[OF len items _ _ f]) (use e lv in simp_all)
  show ?thesis
    using f b e lv by (simp add: canon_at_def exclude_node_def Let_def)
qed

lemma pot_canon: "canon_at j e nd \<Longrightarrow> pot nd = (20 - (j + e)) choose (10 - e)"
  by (simp add: canon_at_def pot_def)

lemma pot_split:
  assumes "e \<le> 9" and "j \<le> 9"
  shows "(20 - (j + e)) choose (10 - e) =
           ((20 - ((j + 1) + e)) choose (10 - e)) + ((20 - (j + (e + 1))) choose (10 - (e + 1)))"
proof -
  have a: "20 - (j + e) = Suc (19 - j - e)" "10 - e = Suc (9 - e)"
    "20 - ((j + 1) + e) = 19 - j - e" "20 - (j + (e + 1)) = 19 - j - e" "10 - (e + 1) = 9 - e"
    using assms by simp_all
  show ?thesis unfolding a by simp
qed

lemma pot_full:
  assumes "e \<le> 9"
  shows "(20 - (10 + e)) choose (10 - e) = ((20 - (10 + (e + 1))) choose (10 - (e + 1)))"
proof -
  have a: "20 - (10 + e) = 10 - e" "20 - (10 + (e + 1)) = 10 - (e + 1)" using assms by simp_all
  show ?thesis unfolding a by simp
qed

lemma pot_large: "canon_at j e nd \<Longrightarrow> 2 \<le> pot nd \<Longrightarrow> e \<le> 9"
proof (rule ccontr)
  assume c: "canon_at j e nd" and p: "2 \<le> pot nd" and "\<not> e \<le> 9"
  then have "e = 10" by (simp add: canon_at_def)
  then have "pot nd = 1" using pot_canon[OF c] by simp
  then show False using p by simp
qed

lemma sum_list_le_length:
  "\<forall>x \<in> set xs. f x \<le> (1::nat) \<Longrightarrow> sum_list (map f xs) \<le> length xs"
  by (induction xs) auto

lemma sum_list_mset_step:
  assumes "mset xs = add_mset x (mset ys)"
  shows "sum_list (map f xs) = (f x :: nat) + sum_list (map f ys)"
proof -
  have "mset (map f xs) = mset (map f (x # ys))" using assms by simp
  then have "sum_mset (mset (map f xs)) = sum_mset (mset (map f (x # ys)))" by simp
  then show ?thesis unfolding sum_mset_sum_list by simp
qed

lemma some_large_pot:
  assumes "10001 \<le> ov_potential q" and "length q \<le> KN_QUEUE_CAP"
  shows "\<exists>nd \<in> set q. 2 \<le> pot nd"
proof (rule ccontr)
  assume "\<not> (\<exists>nd \<in> set q. 2 \<le> pot nd)"
  then have "\<forall>nd \<in> set q. pot nd \<le> 1" by auto
  then have "ov_potential q \<le> length q"
    unfolding ov_potential_def by (rule sum_list_le_length)
  then show False using assms by (simp add: KN_QUEUE_CAP_def)
qed

lemma ov_offer:
  assumes "max_profit s = 0" and "heap_ok kn_le (kn_queue s)" and "0 < kn_bound nd"
  shows "kn_offer nd s = Inl QueueOverflow \<or>
         (\<exists>q'. kn_offer nd s = Inr (s\<lparr>kn_queue := q'\<rparr>) \<and>
               mset q' = add_mset nd (mset (kn_queue s)) \<and> heap_ok kn_le q' \<and>
               length q' \<le> KN_QUEUE_CAP)"
proof (cases "pq_push (kn_queue s) nd")
  case (Inl err)
  then have "err = QueueOverflow" by (auto simp: pq_push_def heap_push_def split: if_splits)
  then show ?thesis using Inl assms by (simp add: kn_offer_def)
next
  case (Inr q')
  then have p: "heap_push kn_le KN_QUEUE_CAP (kn_queue s) nd = Inr q'" by (simp add: pq_push_def)
  have "mset q' = add_mset nd (mset (kn_queue s))" using heap_push_mset[OF p] .
  moreover have "heap_ok kn_le q'"
    using heap_push_heap_ok[OF kn_le_total_preorder assms(2) p] .
  moreover have "length q' \<le> KN_QUEUE_CAP" using heap_push_length[OF p] by simp
  moreover have "kn_offer nd s = Inr (s\<lparr>kn_queue := q'\<rparr>)"
    using Inr assms by (simp add: kn_offer_def)
  ultimately show ?thesis by blast
qed


lemma measure_step:
  assumes "mset xs = add_mset x (mset ys)"
  shows "sum_list (map (\<lambda>nd. 3 ^ (21 - kn_level nd)) xs) =
           (3::nat) ^ (21 - kn_level x) + sum_list (map (\<lambda>nd. 3 ^ (21 - kn_level nd)) ys)"
  using sum_list_mset_step[OF assms, of "\<lambda>nd. 3 ^ (21 - kn_level nd)"] .

lemma ov_step:
  assumes len: "length items = 20"
    and items: "\<forall>it \<in> set items. item_weight it = 2 \<and> item_value it = 2 \<and> item_ratio it = 1"
    and inv: "ov_inv s"
  shows "kn_queue s \<noteq> [] \<and>
         (kn_step items 21 s = Inl QueueOverflow \<or>
          (\<exists>s'. kn_step items 21 s = Inr s' \<and> ov_inv s' \<and> ov_measure s' < ov_measure s))"
proof -
  have mp: "max_profit s = 0" and hk: "heap_ok kn_le (kn_queue s)"
    and cn: "\<forall>nd \<in> set (kn_queue s). canon nd"
    and potq: "10001 \<le> ov_potential (kn_queue s)" and lenq: "length (kn_queue s) \<le> KN_QUEUE_CAP"
    using inv by (simp_all add: ov_inv_def)
  have ne: "kn_queue s \<noteq> []" using potq by (auto simp: ov_potential_def)
  then obtain cur q where hp: "heap_pop kn_le (kn_queue s) = Inr (cur, q)"
    by (auto simp: heap_pop_def)
  then have pop: "pq_pop (kn_queue s) = Inr (cur, q)" by (simp add: pq_pop_def)
  have ms: "mset (kn_queue s) = add_mset cur (mset q)" using heap_pop_mset[OF hp] by simp
  have hq: "heap_ok kn_le q" using heap_pop_heap_ok[OF kn_le_total_preorder hk hp] .
  have best: "\<forall>y \<in> set (kn_queue s). kn_bound y \<le> kn_bound cur"
    using heap_pop_best[OF kn_le_total_preorder hk hp] by (simp add: kn_le_def)
  have sets: "set (kn_queue s) = insert cur (set q)"
    using ms by (metis set_mset_add_mset_insert set_mset_mset)
  obtain big where big: "big \<in> set (kn_queue s)" "2 \<le> pot big"
    using some_large_pot[OF potq lenq] by blast
  obtain jb eb where cb: "canon_at jb eb big" using cn big(1) by (auto simp: canon_def)
  have "eb \<le> 9" using pot_large[OF cb big(2)] .
  then have "kn_bound big = 21" using cb by (simp add: canon_at_def)
  then have b21: "21 \<le> kn_bound cur" using best big(1) by fastforce
  obtain j e where ce: "canon_at j e cur" using cn sets by (auto simp: canon_def)
  have e9: "e \<le> 9" using ce b21 by (auto simp: canon_at_def split: if_splits)
  have cf: "j \<le> 10" "kn_level cur = j + e" "kn_profit cur = 2 * int j"
    "kn_weight cur = 2 * int j" "kn_bound cur = 21"
    using ce e9 by (simp_all add: canon_at_def)
  define s1 where "s1 = s\<lparr>kn_queue := q, nodes_explored := nodes_explored s + 1\<rparr>"
  have s1: "max_profit s1 = 0" "kn_queue s1 = q" using mp by (simp_all add: s1_def)
  have step: "kn_step items 21 s = kn_branch items 21 cur s1"
    using pop cf e9 mp len by (simp add: kn_step_def Let_def s1_def)
  have "items ! kn_level cur \<in> set items" using cf e9 len by simp
  then have w: "item_weight (items ! kn_level cur) = 2" using items by blast
  define xn where "xn = exclude_node items 21 cur"
  have cx: "canon_at j (e + 1) xn" unfolding xn_def by (rule canon_exclude[OF len items ce e9])
  have bx: "0 < kn_bound xn" using cx by (simp add: canon_at_def)
  have lx: "kn_level xn = Suc (j + e)" using cx by (simp add: canon_at_def)
  have potc: "ov_potential (kn_queue s) = pot cur + ov_potential q"
    unfolding ov_potential_def by (rule sum_list_mset_step[OF ms])
  have meas: "ov_measure s = 3 ^ (21 - (j + e)) + sum_list (map (\<lambda>nd. 3 ^ (21 - kn_level nd)) q)"
    unfolding ov_measure_def using measure_step[OF ms] cf by simp
  have pw: "(3::nat) ^ (21 - (j + e)) = 3 * 3 ^ (20 - (j + e))"
  proof -
    have "21 - (j + e) = Suc (20 - (j + e))" using cf e9 by simp
    then show ?thesis by simp
  qed
  have cq: "\<forall>nd \<in> set q. canon nd" using cn sets by simp
  show ?thesis
  proof (cases "j \<le> 9")
    case True
    define inn where "inn = include_node items 21 cur"
    have ci: "canon_at (j + 1) e inn" unfolding inn_def
      by (rule canon_include[OF len items ce e9 True])
    have bi: "0 < kn_bound inn" using ci by (simp add: canon_at_def)
    have li: "kn_level inn = Suc (j + e)" using ci by (simp add: canon_at_def)
    have br: "kn_branch items 21 cur s1 =
                (case kn_offer inn s1 of Inl err \<Rightarrow> Inl err | Inr s2 \<Rightarrow> kn_offer xn s2)"
      unfolding inn_def xn_def using True cf w by (simp add: kn_branch_def)
    from ov_offer[of s1 inn] s1 hq bi
    consider "kn_offer inn s1 = Inl QueueOverflow"
      | q2 where "kn_offer inn s1 = Inr (s1\<lparr>kn_queue := q2\<rparr>)"
          "mset q2 = add_mset inn (mset q)" "heap_ok kn_le q2" "length q2 \<le> KN_QUEUE_CAP"
      by auto
    then show ?thesis
    proof cases
      case 1
      then show ?thesis using ne step br by simp
    next
      case (2 q2)
      define s2 where "s2 = s1\<lparr>kn_queue := q2\<rparr>"
      have s2: "max_profit s2 = 0" "kn_queue s2 = q2" using s1 by (simp_all add: s2_def)
      have br2: "kn_branch items 21 cur s1 = kn_offer xn s2" using br 2(1) by (simp add: s2_def)
      from ov_offer[of s2 xn] s2 2(3) bx
      consider "kn_offer xn s2 = Inl QueueOverflow"
        | q3 where "kn_offer xn s2 = Inr (s2\<lparr>kn_queue := q3\<rparr>)"
            "mset q3 = add_mset xn (mset q2)" "heap_ok kn_le q3" "length q3 \<le> KN_QUEUE_CAP"
        by auto
      then show ?thesis
      proof cases
        case 1
        then show ?thesis using ne step br2 by simp
      next
        case (2 q3)
        define s3 where "s3 = s2\<lparr>kn_queue := q3\<rparr>"
        have st3: "kn_step items 21 s = Inr s3" using step br2 2(1) by (simp add: s3_def)
        have m3: "mset q3 = add_mset xn (add_mset inn (mset q))"
          using 2(2) \<open>mset q2 = add_mset inn (mset q)\<close> by simp
        have set3: "set q3 = insert xn (insert inn (set q))"
          using m3 by (metis set_mset_add_mset_insert set_mset_mset)
        have can3: "\<forall>nd \<in> set q3. canon nd"
          using set3 cq cx ci by (auto simp: canon_def)
        have "ov_potential q3 = pot xn + (pot inn + ov_potential q)"
          unfolding ov_potential_def
          using sum_list_mset_step[OF 2(2), of pot]
            sum_list_mset_step[OF \<open>mset q2 = add_mset inn (mset q)\<close>, of pot] by simp
        also have "\<dots> = pot cur + ov_potential q"
          using pot_canon[OF cx] pot_canon[OF ci] pot_canon[OF ce] pot_split[OF e9 True] by simp
        finally have pot3: "ov_potential q3 = ov_potential (kn_queue s)" using potc by simp
        have "ov_measure s3 = 3 ^ (21 - kn_level xn)
                + (3 ^ (21 - kn_level inn) + sum_list (map (\<lambda>nd. 3 ^ (21 - kn_level nd)) q))"
          unfolding ov_measure_def s3_def
          using measure_step[OF 2(2)] measure_step[OF \<open>mset q2 = add_mset inn (mset q)\<close>]
          by simp
        then have "ov_measure s3 =
            2 * 3 ^ (20 - (j + e)) + sum_list (map (\<lambda>nd. 3 ^ (21 - kn_level nd)) q)"
          using lx li by simp
        then have dec: "ov_measure s3 < ov_measure s" using meas pw by simp
        have "ov_inv s3"
          using s2 2(3,4) can3 pot3 potq by (simp add: ov_inv_def s3_def)
        then show ?thesis using ne st3 dec by blast
      qed
    qed
  next
    case False
    then have j10: "j = 10" using cf by simp
    have br: "kn_branch items 21 cur s1 = kn_offer xn s1"
      unfolding xn_def using j10 cf w by (simp add: kn_branch_def)
    from ov_offer[of s1 xn] s1 hq bx
    consider "kn_offer xn s1 = Inl QueueOverflow"
      | q2 where "kn_offer xn s1 = Inr (s1\<lparr>kn_queue := q2\<rparr>)"
          "mset q2 = add_mset xn (mset q)" "heap_ok kn_le q2" "length q2 \<le> KN_QUEUE_CAP"
      by auto
    then show ?thesis
    proof cases
      case 1
      then show ?thesis using ne step br by simp
    next
      case (2 q2)
      define s2 where "s2 = s1\<lparr>kn_queue := q2\<rparr>"
      have st2: "kn_step items 21 s = Inr s2" using step br 2(1) by (simp add: s2_def)
      have set2: "set q2 = insert xn (set q)"
        using 2(2) by (metis set_mset_add_mset_insert set_mset_mset)
      have can2: "\<forall>nd \<in> set q2. canon nd" using set2 cq cx by (auto simp: canon_def)
      have "ov_potential q2 = pot xn + ov_potential q"
        unfolding ov_potential_def by (rule sum_list_mset_step[OF 2(2)])
      also have "\<dots> = pot cur + ov_potential q"
        using pot_canon[OF cx] pot_canon[OF ce] pot_full[OF e9] j10 by simp
      finally have pot2: "ov_potential q2 = ov_potential (kn_queue s)" using potc by simp
      have "ov_measure s2 = 3 ^ (21 - kn_level xn) + sum_list (map (\<lambda>nd. 3 ^ (21 - kn_level nd)) q)"
        unfolding ov_measure_def s2_def using measure_step[OF 2(2)] by simp
      then have "ov_measure s2 = 3 ^ (20 - (j + e)) + sum_list (map (\<lambda>nd. 3 ^ (21 - kn_level nd)) q)"
        using lx by simp
      then have dec: "ov_measure s2 < ov_measure s" using meas pw by simp
      have "ov_inv s2"
        using s1 2(3,4) can2 pot2 potq by (simp add: ov_inv_def s2_def)
      then show ?thesis using ne st2 dec by blast
    qed
  qed
qed


lemma ov_loop:
  assumes len: "length items = 20"
    and items: "\<forall>it \<in> set items. item_weight it = 2 \<and> item_value it = 2 \<and> item_ratio it = 1"
  shows "ov_inv s \<Longrightarrow> kn_loop items 21 s = Some (Inl QueueOverflow)"
proof (induction "ov_measure s" arbitrary: s rule: less_induct)
  case less
  from ov_step[OF len items less.prems]
  have ne: "kn_queue s \<noteq> []"
    and st: "kn_step items 21 s = Inl QueueOverflow \<or>
             (\<exists>s'. kn_step items 21 s = Inr s' \<and> ov_inv s' \<and> ov_measure s' < ov_measure s)"
    by simp_all
  from st show ?case
  proof
    assume "kn_step items 21 s = Inl QueueOverflow"
    then show ?thesis using ne by (subst kn_loop.simps) simp
  next
    assume "\<exists>s'. kn_step items 21 s = Inr s' \<and> ov_inv s' \<and> ov_measure s' < ov_measure s"
    then obtain s' where s': "kn_step items 21 s = Inr s'" "ov_inv s'" "ov_measure s' < ov_measure s"
      by blast
    have "kn_loop items 21 s' = Some (Inl QueueOverflow)" using less.hyps[OF s'(3) s'(2)] .
    then show ?thesis using ne s'(1) by (subst kn_loop.simps) simp
  qed
qed

lemma choose_20_10: "(20::nat) choose 10 = 184756"
  by (simp add: binomial_fact' fact_numeral)

lemma ov_init:
  assumes len: "length items = 20"
    and items: "\<forall>it \<in> set items. item_weight it = 2 \<and> item_value it = 2 \<and> item_ratio it = 1"
  shows "\<exists>s0. kn_init items 21 = Inr s0 \<and> ov_inv s0"
proof -
  let ?r = "kn_root items 21"
  have b: "calculate_bound items 21
             \<lparr>kn_level = 0, kn_profit = 0, kn_weight = 0, kn_bound = 0,
              kn_included = replicate MAX_ITEMS 0\<rparr> = (if (0::nat) \<le> 9 then 21 else 20)"
    by (rule calculate_bound_uniform[OF len items, of 0 0]) simp_all
  have c: "canon_at 0 0 ?r" using b by (simp add: canon_at_def kn_root_def Let_def)
  have push: "pq_push [] ?r = Inr [?r]"
    by (simp add: pq_push_def heap_push_def KN_QUEUE_CAP_def bubble_up.simps)
  have p: "pot ?r = 184756" using pot_canon[OF c] choose_20_10 by simp
  let ?s0 = "\<lparr>kn_queue = [?r], max_profit = 0, best_solution = replicate MAX_ITEMS 0,
              nodes_explored = 0, nodes_pruned = 0\<rparr>"
  have "kn_init items 21 = Inr ?s0" using push by (simp add: kn_init_def)
  moreover have "ov_inv ?s0"
    using c p by (auto simp: ov_inv_def heap_ok_def canon_def ov_potential_def KN_QUEUE_CAP_def)
  ultimately show ?thesis by blast
qed

lemma overflow_items_sorted: "qsort compare_items overflow_items = overflow_items"
  by code_simp

text \<open>
  Claim C5 fails on the code.  Neither \<open>solve_knapsack\<close> nor \<open>pq_push\<close> tests the size of
  the queue, and on the instance of twenty items of weight 2 and value 2 with capacity
  21 the search reaches a \<open>pq_push\<close> with \<open>size == 10000\<close>: the model stops with
  \<open>QueueOverflow\<close> where the program writes \<open>pq->nodes[10000]\<close>, behind the array.
\<close>

theorem knapsack_queue_overflow:
  "solve_knapsack overflow_items 21 = Some (overflow_items, Inl QueueOverflow)"
proof -
  have len: "length overflow_items = 20" by (simp add: overflow_items_def)
  have items: "\<forall>it \<in> set overflow_items.
                 item_weight it = 2 \<and> item_value it = 2 \<and> item_ratio it = 1"
    by (auto simp: overflow_items_def)
  obtain s0 where s0: "kn_init overflow_items 21 = Inr s0" "ov_inv s0"
    using ov_init[OF len items] by blast
  have "kn_loop overflow_items 21 s0 = Some (Inl QueueOverflow)"
    using ov_loop[OF len items s0(2)] .
  then show ?thesis
    using s0(1) by (simp add: solve_knapsack_def overflow_items_sorted)
qed

section \<open>Determinism of the solvers\<close>

subsection \<open>The heap on related queues\<close>







subsection \<open>\<open>solve_tsp\<close>\<close>



lemma node_eq_refl: "node_eq a a"
  by (simp add: node_eq_def)





lemma tsp_calculate_bound_ignores_bound:
  "tsp_calculate_bound graph n (nd\<lparr>tsp_bound := x\<rparr>) = tsp_calculate_bound graph n nd"
proof -
  have "tsp_bound_step graph n (nd\<lparr>tsp_bound := x\<rparr>) = tsp_bound_step graph n nd"
    by (intro ext) (simp add: tsp_bound_step_def)
  then show ?thesis by (simp add: tsp_calculate_bound_def cong: sum.case_cong)
qed



















subsection \<open>\<open>solve_assignment\<close>\<close>




















subsection \<open>What \<open>solve_tsp\<close> leaves in \<open>best_path\<close> when it records no tour\<close>






subsection \<open>\<open>solve_knapsack\<close> on the array a first run has left\<close>




subsection \<open>The three solvers\<close>







end
